theory Spec2Isabelle
  imports Complex_Main
begin

section \<open>Errors and parameters\<close>

text \<open>
  Python exceptions are values of \<open>error\<close>. Floating-point numbers are idealised as
  \<open>real\<close>; a floating-point division by zero, which numpy answers with a warning and
  \<open>nan\<close> or \<open>inf\<close>, is the outcome \<open>NotFinite\<close>.
\<close>

datatype error =
    KeyError string
  | ZeroDivisionError
  | ValueError
  | IndexError
  | NotFinite
  | SystemExit string
  | KeyboardInterrupt

text \<open>
  An lmfit parameter as far as this code reads it: \<open>value\<close>, \<open>vary\<close>, \<open>expr\<close> and the
  flag \<open>_delay_asteval\<close>. An absent expression is the empty string (Python tests it
  with \<open>not params[name].expr\<close>).
\<close>

record param =
  param_value :: real
  param_vary :: bool
  param_expr :: string
  delay_asteval :: bool

type_synonym params = "string \<rightharpoonup> param"

definition params_get :: "params \<Rightarrow> string \<Rightarrow> error + param" where
  "params_get ps name = (case ps name of None \<Rightarrow> Inl (KeyError name) | Some p \<Rightarrow> Inr p)"

section \<open>cpmg\_profile.py: the profile\<close>

text \<open>
  The attributes of \<open>CPMGProfile\<close> that the methods below read. \<open>measurements\<close> is a
  structured array, one record \<open>(ncyc, intensity, intensity_err)\<close> per point, so the
  three columns have one length. The experimental constants are taken after
  \<open>check_par\<close>; \<open>map_names\<close> is the dictionary of short to long parameter names, in
  insertion order.
\<close>

record profile =
  profile_name :: string
  ncycs :: "int list"
  val :: "real list"
  err :: "real list"
  reference :: "bool list"
  time_t2 :: real
  pw :: real
  tau_cp_list :: "real list"
  map_names :: "(string \<times> string) list"

definition tau_cp :: "real \<Rightarrow> real \<Rightarrow> int \<Rightarrow> real" where
  "tau_cp t2 w ncyc =
     (if ncyc > 0 then t2 / (4 * real_of_int ncyc) - w
      else if ncyc \<noteq> 0 then t2 / 2
      else 0)"

definition CPMGProfile_init ::
  "string \<Rightarrow> (int \<times> real \<times> real) list \<Rightarrow> real \<Rightarrow> real \<Rightarrow> profile" where
  "CPMGProfile_init name measurements t2 w =
     \<lparr> profile_name = name,
       ncycs = map fst measurements,
       val = map (fst \<circ> snd) measurements,
       err = map (snd \<circ> snd) measurements,
       reference = map (\<lambda>m. fst m = 0) measurements,
       time_t2 = t2,
       pw = w,
       tau_cp_list = map (\<lambda>m. tau_cp t2 w (fst m)) measurements,
       map_names = [] \<rparr>"

text \<open>The invariant the constructor establishes and the methods rely on.\<close>

definition profile_ok :: "profile \<Rightarrow> bool" where
  "profile_ok p \<longleftrightarrow>
     length (val p) = length (ncycs p) \<and>
     length (err p) = length (ncycs p) \<and>
     length (tau_cp_list p) = length (ncycs p) \<and>
     reference p = map (\<lambda>n. n = 0) (ncycs p)"

subsection \<open>calculate\_scale\<close>

text \<open>
  \<open>sum(cal * self.val / self.err ** 2) / sum((cal / self.err) ** 2)\<close>. The elementwise
  operations need arrays of one length (\<open>ValueError\<close> otherwise; numpy's broadcast of a
  one-element array does not arise, \<open>cal\<close> having one entry per point). A zero
  uncertainty makes an elementwise division by zero. \<open>sum\<close> is Python's builtin: over
  an empty array both sums are the integer 0 and the final division raises
  \<open>ZeroDivisionError\<close>; otherwise they are floats, and a zero denominator gives
  \<open>nan\<close>.
\<close>

definition scale_numerator :: "profile \<Rightarrow> real list \<Rightarrow> real" where
  "scale_numerator p cal =
     sum_list (map (\<lambda>(c, v, e). c * v / e ^ 2) (zip cal (zip (val p) (err p))))"

definition scale_denominator :: "profile \<Rightarrow> real list \<Rightarrow> real" where
  "scale_denominator p cal =
     sum_list (map (\<lambda>(c, e). (c / e) ^ 2) (zip cal (err p)))"

definition calculate_scale :: "profile \<Rightarrow> real list \<Rightarrow> error + real" where
  "calculate_scale p cal =
     (if length cal \<noteq> length (val p) \<or> length (val p) \<noteq> length (err p) then Inl ValueError
      else if 0 \<in> set (err p) then Inl NotFinite
      else if cal = [] then Inl ZeroDivisionError
      else if scale_denominator p cal = 0 then Inl NotFinite
      else Inr (scale_numerator p cal / scale_denominator p cal))"

subsection \<open>calculate\_profile\<close>

text \<open>
  The keyword arguments: the value of each long-named parameter under its short name;
  a name missing from \<open>params\<close> raises \<open>KeyError\<close>.
\<close>

fun make_kwargs :: "params \<Rightarrow> (string \<times> string) list \<Rightarrow> error + (string \<times> real) list" where
  "make_kwargs ps [] = Inr []"
| "make_kwargs ps ((short_name, long_name) # rest) =
     (case params_get ps long_name of
        Inl e \<Rightarrow> Inl e
      | Inr q \<Rightarrow>
          (case make_kwargs ps rest of
             Inl e \<Rightarrow> Inl e
           | Inr kw \<Rightarrow> Inr ((short_name, param_value q) # kw)))"

text \<open>
  Modelled from the spec: the override of \<open>calculate_unscaled_profile\<close> (the base class
  has only \<open>pass\<close>; the experiment subclasses are not among the sources). The spec: "call
  the cached observable function for every cycle count, obtaining an unscaled curve". The
  observable function is the parameter \<open>obs\<close>. The \<open>lru_cache(5)\<close> around it returns
  what the function returns, so it does not appear in the value.
\<close>

definition calculate_unscaled_profile ::
  "((string \<times> real) list \<Rightarrow> int \<Rightarrow> real) \<Rightarrow> profile \<Rightarrow> (string \<times> real) list \<Rightarrow> real list" where
  "calculate_unscaled_profile obs p kwargs = map (obs kwargs) (ncycs p)"

definition calculate_profile ::
  "((string \<times> real) list \<Rightarrow> int \<Rightarrow> real) \<Rightarrow> profile \<Rightarrow> params \<Rightarrow> error + real list" where
  "calculate_profile obs p ps =
     (case make_kwargs ps (map_names p) of
        Inl e \<Rightarrow> Inl e
      | Inr kwargs \<Rightarrow>
          (let values = calculate_unscaled_profile obs p kwargs in
           case calculate_scale p values of
             Inl e \<Rightarrow> Inl e
           | Inr scale \<Rightarrow> Inr (map (\<lambda>x. x * scale) values)))"

text \<open>The residual sum of squares of the curve \<open>t * cal\<close> against the measurements.\<close>

definition rss :: "profile \<Rightarrow> real list \<Rightarrow> real \<Rightarrow> real" where
  "rss p cal t =
     sum_list (map (\<lambda>(c, v, e). ((t * c - v) / e) ^ 2) (zip cal (zip (val p) (err p))))"


subsection \<open>make\_bs\_profile\<close>

text \<open>
  numpy indexing. A boolean mask must have the length of the array and selects the
  elements at its true positions; a list of indexes selects the elements at those
  positions, and an index out of range raises \<open>IndexError\<close>.
\<close>

definition boolean_mask :: "'a list \<Rightarrow> bool list \<Rightarrow> error + 'a list" where
  "boolean_mask xs msk =
     (if length msk \<noteq> length xs then Inl IndexError
      else Inr (map (\<lambda>i. xs ! i) (filter (\<lambda>i. msk ! i) [0..<length xs])))"

definition take_indices :: "'a list \<Rightarrow> nat list \<Rightarrow> error + 'a list" where
  "take_indices xs idx =
     (if \<exists>i\<in>set idx. length xs \<le> i then Inl IndexError
      else Inr (map (\<lambda>i. xs ! i) idx))"

text \<open>
  \<open>np.random.choice(pool, n)\<close>: \<open>n\<close> draws with replacement from \<open>pool\<close>. The state
  of the random generator is a stream of naturals \<open>rnd\<close>, read from the offset \<open>off\<close>;
  a draw \<open>r\<close> selects \<open>pool ! (r mod length pool)\<close>. An empty pool raises \<open>ValueError\<close>
  unless no samples are taken.
\<close>

definition random_choice :: "(nat \<Rightarrow> nat) \<Rightarrow> nat \<Rightarrow> nat list \<Rightarrow> nat \<Rightarrow> error + nat list" where
  "random_choice rnd off pool n =
     (if pool = [] \<and> n \<noteq> 0 then Inl ValueError
      else Inr (map (\<lambda>k. pool ! (rnd (off + k) mod length pool)) [0..<n]))"

text \<open>
  The copy keeps every attribute but the four resampled arrays; \<open>reference\<close> is the
  mask of the original. The fresh \<open>lru_cache\<close> holds no state of the model.
\<close>

definition make_bs_profile :: "(nat \<Rightarrow> nat) \<Rightarrow> profile \<Rightarrow> error + profile" where
  "make_bs_profile rnd p =
     (let indexes = [0..<length (val p)] in
      case boolean_mask indexes (reference p) of Inl e \<Rightarrow> Inl e | Inr pool1 \<Rightarrow>
      case boolean_mask indexes (map Not (reference p)) of Inl e \<Rightarrow> Inl e | Inr pool2 \<Rightarrow>
      case (if pool1 \<noteq> [] then random_choice rnd 0 pool1 (length pool1) else Inr []) of
        Inl e \<Rightarrow> Inl e | Inr bs1 \<Rightarrow>
      case random_choice rnd (length bs1) pool2 (length pool2) of Inl e \<Rightarrow> Inl e | Inr bs2 \<Rightarrow>
      let bs_indexes = sort (bs1 @ bs2) in
      case take_indices (ncycs p) bs_indexes of Inl e \<Rightarrow> Inl e | Inr ncycs' \<Rightarrow>
      case take_indices (tau_cp_list p) bs_indexes of Inl e \<Rightarrow> Inl e | Inr tau' \<Rightarrow>
      case take_indices (val p) bs_indexes of Inl e \<Rightarrow> Inl e | Inr val' \<Rightarrow>
      case take_indices (err p) bs_indexes of Inl e \<Rightarrow> Inl e | Inr err' \<Rightarrow>
      Inr (p\<lparr> ncycs := ncycs', tau_cp_list := tau', val := val', err := err' \<rparr>))"

section \<open>fitting.py: the cluster partitioner\<close>

text \<open>
  A cluster under construction is the triple \<open>(data_cluster, pnames_cluster,
  pnames_vary_cluster)\<close>: the profiles, every parameter name they reference (a list,
  with repetitions) and the set of their varying names without an expression. A Python
  set is a list without repetitions; \<open>pop()\<close> takes its first element (CPython's
  order is an implementation detail, and matters to the label only). The profiles are
  of any type \<open>'p\<close>; \<open>keys\<close> stands for \<open>profile.params.keys()\<close>.
\<close>

type_synonym 'p cluster = "'p list \<times> string list \<times> string list"

text \<open>
  \<open>{name for name in pnames if params[name].vary and not params[name].expr}\<close>; a name
  that \<open>params\<close> lacks raises \<open>KeyError\<close>.
\<close>

fun vary_names :: "params \<Rightarrow> string list \<Rightarrow> error + string list" where
  "vary_names ps [] = Inr []"
| "vary_names ps (name # names) =
     (case params_get ps name of
        Inl e \<Rightarrow> Inl e
      | Inr q \<Rightarrow>
          (case vary_names ps names of
             Inl e \<Rightarrow> Inl e
           | Inr vs \<Rightarrow>
               Inr (if param_vary q \<and> param_expr q = [] then List.insert name vs else vs)))"

text \<open>
  The inner \<open>for ... else\<close>: the profile joins the first cluster whose varying names
  meet its own (\<open>break\<close>); if none does, it starts a new cluster at the end.
\<close>

fun add_profile :: "'p \<Rightarrow> string list \<Rightarrow> string list \<Rightarrow> 'p cluster list \<Rightarrow> 'p cluster list" where
  "add_profile prof pnames pnames_vary [] = [([prof], pnames, pnames_vary)]"
| "add_profile prof pnames pnames_vary ((data_cluster, pnames_cluster, pnames_vary_cluster) # rest) =
     (if \<exists>name\<in>set pnames_vary. name \<in> set pnames_vary_cluster
      then (data_cluster @ [prof], pnames_cluster @ pnames,
            pnames_vary_cluster @ filter (\<lambda>name. name \<notin> set pnames_vary_cluster) pnames_vary) # rest
      else (data_cluster, pnames_cluster, pnames_vary_cluster)
             # add_profile prof pnames pnames_vary rest)"

fun build_clusters ::
  "('p \<Rightarrow> string list) \<Rightarrow> params \<Rightarrow> 'p list \<Rightarrow> 'p cluster list \<Rightarrow> error + 'p cluster list" where
  "build_clusters keys ps [] clusters = Inr clusters"
| "build_clusters keys ps (prof # data) clusters =
     (case vary_names ps (keys prof) of
        Inl e \<Rightarrow> Inl e
      | Inr pnames_vary \<Rightarrow>
          build_clusters keys ps data (add_profile prof (keys prof) pnames_vary clusters))"

text \<open>
  The label of a cluster: \<open>ParameterName.from_full_name\<close> of a popped name,
  intersected with that of every other name. \<open>pop()\<close> on an empty set raises
  \<open>KeyError\<close>. \<open>ParameterName\<close> is not among the sources: \<open>from_full_name\<close> and
  \<open>intersection\<close> are parameters.
\<close>

fun cluster_label :: "(string \<Rightarrow> 'n) \<Rightarrow> ('n \<Rightarrow> 'n \<Rightarrow> 'n) \<Rightarrow> string list \<Rightarrow> error + 'n" where
  "cluster_label from_full_name intersection [] = Inl (KeyError ''pop from an empty set'')"
| "cluster_label from_full_name intersection (name # names) =
     Inr (foldl (\<lambda>name_cluster n. intersection name_cluster (from_full_name n))
            (from_full_name name) names)"

text \<open>
  The parameters of a cluster. \<open>params_cluster\<close> holds the very objects of \<open>params\<close>,
  so it is kept as its list of keys (in order of first insertion) over the store
  \<open>params\<close>: the first loop sets \<open>_delay_asteval\<close> on each parameter it stages, the
  second clears it on every staged parameter.
\<close>

fun stage_params :: "params \<Rightarrow> string list \<Rightarrow> string list \<Rightarrow> error + params \<times> string list" where
  "stage_params ps [] staged = Inr (ps, staged)"
| "stage_params ps (pname # pnames) staged =
     (case params_get ps pname of
        Inl e \<Rightarrow> Inl e
      | Inr q \<Rightarrow>
          stage_params (ps(pname \<mapsto> q\<lparr>delay_asteval := True\<rparr>)) pnames
            (if pname \<in> set staged then staged else staged @ [pname]))"

fun clear_delay :: "params \<Rightarrow> string list \<Rightarrow> params" where
  "clear_delay ps [] = ps"
| "clear_delay ps (pname # pnames) =
     clear_delay (case ps pname of None \<Rightarrow> ps
                  | Some q \<Rightarrow> ps(pname \<mapsto> q\<lparr>delay_asteval := False\<rparr>)) pnames"

definition params_items :: "params \<Rightarrow> string list \<Rightarrow> (string \<times> param) list" where
  "params_items ps names = List.map_filter (\<lambda>n. map_option (Pair n) (ps n)) names"

fun label_clusters ::
  "(string \<Rightarrow> 'n) \<Rightarrow> ('n \<Rightarrow> 'n \<Rightarrow> 'n) \<Rightarrow> params \<Rightarrow> 'p cluster list
     \<Rightarrow> error + ('n \<times> 'p list \<times> string list) list \<times> params" where
  "label_clusters from_full_name intersection ps [] = Inr ([], ps)"
| "label_clusters from_full_name intersection ps ((data_cluster, pnames_cluster, pnames_vary_cluster) # rest) =
     (case cluster_label from_full_name intersection pnames_vary_cluster of
        Inl e \<Rightarrow> Inl e
      | Inr name_cluster \<Rightarrow>
          (case stage_params ps pnames_cluster [] of
             Inl e \<Rightarrow> Inl e
           | Inr (ps1, staged) \<Rightarrow>
               (case label_clusters from_full_name intersection (clear_delay ps1 staged) rest of
                  Inl e \<Rightarrow> Inl e
                | Inr (clusters', ps2) \<Rightarrow>
                    Inr ((name_cluster, data_cluster, staged) # clusters', ps2))))"

text \<open>
  \<open>sorted(clusters_)\<close> orders the triples by their label; Python's sort is stable, as
  \<open>sort_key\<close> is. (Between two equal labels Python would go on to compare the data
  sets, whose ordering is not among the sources.) The result carries the store of
  parameters as the function leaves it.
\<close>

definition find_independent_clusters ::
  "(string \<Rightarrow> 'n::linorder) \<Rightarrow> ('n \<Rightarrow> 'n \<Rightarrow> 'n) \<Rightarrow> ('p \<Rightarrow> string list) \<Rightarrow> 'p list \<Rightarrow> params
     \<Rightarrow> error + ('n \<times> 'p list \<times> (string \<times> param) list) list \<times> params" where
  "find_independent_clusters from_full_name intersection keys data ps =
     (case build_clusters keys ps data [] of
        Inl e \<Rightarrow> Inl e
      | Inr clusters \<Rightarrow>
          (case label_clusters from_full_name intersection ps clusters of
             Inl e \<Rightarrow> Inl e
           | Inr (clusters', ps') \<Rightarrow>
               Inr (sort_key fst
                      (map (\<lambda>(name_cluster, data_cluster, staged).
                              (name_cluster, data_cluster, params_items ps' staged)) clusters'),
                    ps')))"

text \<open>
  A free parameter: present, varying and without an expression. Two profiles share a
  free parameter when a name that both reference is free.
\<close>

definition is_free :: "params \<Rightarrow> string \<Rightarrow> bool" where
  "is_free ps name = (case ps name of None \<Rightarrow> False | Some q \<Rightarrow> param_vary q \<and> param_expr q = [])"

definition shares_free :: "params \<Rightarrow> ('p \<Rightarrow> string list) \<Rightarrow> 'p \<Rightarrow> 'p \<Rightarrow> bool" where
  "shares_free ps keys x y = (\<exists>name\<in>set (keys x). name \<in> set (keys y) \<and> is_free ps name)"

text \<open>
  Two profiles of a dataset are linked when a chain of profiles of the dataset leads
  from one to the other, each sharing a free parameter with the next.
\<close>

definition share_rel :: "params \<Rightarrow> ('p \<Rightarrow> string list) \<Rightarrow> 'p list \<Rightarrow> ('p \<times> 'p) set" where
  "share_rel ps keys data = {(a, b). a \<in> set data \<and> b \<in> set data \<and> shares_free ps keys a b}"

definition linked :: "params \<Rightarrow> ('p \<Rightarrow> string list) \<Rightarrow> 'p list \<Rightarrow> 'p \<Rightarrow> 'p \<Rightarrow> bool" where
  "linked ps keys data x y \<longleftrightarrow> (x, y) \<in> (share_rel ps keys data)\<^sup>*"

text \<open>
  Invariants of the list of clusters under construction: the varying names of a cluster
  are those of its profiles, a cluster that holds a profile without free parameter has
  no varying name, and the profiles of a cluster are linked.
\<close>

definition free_set :: "params \<Rightarrow> ('p \<Rightarrow> string list) \<Rightarrow> 'p \<Rightarrow> string set" where
  "free_set ps keys q = {n \<in> set (keys q). is_free ps n}"

definition cluster_inv :: "params \<Rightarrow> ('p \<Rightarrow> string list) \<Rightarrow> 'p cluster \<Rightarrow> bool" where
  "cluster_inv ps keys c \<longleftrightarrow>
     (case c of (dc, pc, vc) \<Rightarrow>
        set pc \<subseteq> dom ps \<and> set vc = (\<Union>q\<in>set dc. free_set ps keys q) \<and>
        ((\<exists>q\<in>set dc. free_set ps keys q = {}) \<longrightarrow> vc = []))"

definition chain_inv :: "params \<Rightarrow> ('p \<Rightarrow> string list) \<Rightarrow> 'p list \<Rightarrow> 'p cluster \<Rightarrow> bool" where
  "chain_inv ps keys all c \<longleftrightarrow>
     set (fst c) \<subseteq> set all \<and> (\<forall>x\<in>set (fst c). \<forall>y\<in>set (fst c). linked ps keys all x y)"

section \<open>back\_calculation.py: the observable and its caches\<close>

text \<open>
  The matrices are of any type \<open>'m\<close>. The operations of numpy and scipy (\<open>expm\<close>,
  \<open>dot\<close>, \<open>matrix_power\<close>, \<open>eye\<close>, sum, difference, product and quotient by a scalar)
  and the functions of the module \<open>liouvillian\<close>, which is not among the sources
  (\<open>compute_liouvillians\<close>, \<open>compute_nz_eq\<close>, \<open>get_nz\<close>), are the fields of a record that
  every function takes. \<open>compute_liouvillians\<close> gets the seven arguments of
  \<open>make_propagators\<close> and \<open>w1\<close>.
\<close>

record 'm linalg =
  expm :: "'m \<Rightarrow> 'm"
  dot :: "'m \<Rightarrow> 'm \<Rightarrow> 'm"
  matrix_power :: "'m \<Rightarrow> int \<Rightarrow> 'm"
  eye :: "nat \<Rightarrow> 'm"
  madd :: "'m \<Rightarrow> 'm \<Rightarrow> 'm"
  msub :: "'m \<Rightarrow> 'm \<Rightarrow> 'm"
  smul :: "'m \<Rightarrow> real \<Rightarrow> 'm"
  sdiv :: "'m \<Rightarrow> real \<Rightarrow> 'm"
  compute_liouvillians :: "real \<times> real \<times> real \<times> real \<times> real \<times> real \<times> real \<Rightarrow> real \<Rightarrow> 'm \<times> 'm \<times> 'm"
  compute_nz_eq :: "real \<Rightarrow> 'm"
  get_nz :: "'m \<Rightarrow> real \<times> real"

text \<open>
  The arguments of the factory \<open>make_calc_observable\<close>, which the inner functions close
  over (\<open>_id\<close> only separates the entries of the factory's own cache).
\<close>

record geometry =
  g_pw :: real
  g_time_t2 :: real
  g_time_equil :: real
  g_ncyc_max :: int
  g_fh_flg :: string
  g_ppm_to_rads :: real
  g_carrier :: real

text \<open>
  The keyword arguments of \<open>_calc_observable\<close>, defaults filled in.
\<close>

record obs_args =
  pb :: real
  kex :: real
  dw :: real
  r_nxy :: real
  dr_nxy :: real
  r_nz :: real
  cs :: real
  ncyc :: int

definition default_args :: obs_args where
  "default_args = \<lparr> pb = 0, kex = 0, dw = 0, r_nxy = 5, dr_nxy = 0, r_nz = 3 / 2, cs = 0, ncyc = 0 \<rparr>"

text \<open>
  The arguments of \<open>make_propagators\<close>: \<open>(pb, kex, dw, r_nxy, dr_nxy, r_nz, cs_offset)\<close>,
  and the tuple \<open>ps\<close> it returns with \<open>l_free\<close>.
\<close>

type_synonym prop_key = "real \<times> real \<times> real \<times> real \<times> real \<times> real \<times> real"

record 'm propagators =
  p_equil :: 'm
  p_pos :: 'm
  p_neg :: 'm
  p_90px :: 'm
  p_90py :: 'm
  p_90mx :: 'm
  p_90my :: 'm
  p_180px :: 'm
  p_180py :: 'm
  p_180mx :: 'm
  p_180my :: 'm
  p_180pmy :: 'm

text \<open>
  The body of \<open>make_propagators\<close>. \<open>w1 = 2.0 * pi / (4.0 * pw)\<close> raises
  \<open>ZeroDivisionError\<close> for \<open>pw = 0\<close>.
\<close>

definition make_propagators_body ::
  "'m linalg \<Rightarrow> geometry \<Rightarrow> prop_key \<Rightarrow> error + 'm \<times> 'm propagators" where
  "make_propagators_body L G key =
     (if g_pw G = 0 then Inl ZeroDivisionError
      else
        let w1 = 2 * pi / (4 * g_pw G);
            (l_free, l_w1x, l_w1y) = compute_liouvillians L key w1;
            p_90px' = expm L (smul L (madd L l_free l_w1x) (g_pw G));
            p_90py' = expm L (smul L (madd L l_free l_w1y) (g_pw G));
            p_90mx' = expm L (smul L (msub L l_free l_w1x) (g_pw G));
            p_90my' = expm L (smul L (msub L l_free l_w1y) (g_pw G));
            p_180py' = matrix_power L p_90py' 2;
            p_180my' = matrix_power L p_90my' 2
        in Inr (l_free,
             \<lparr> p_equil = expm L (smul L l_free (g_time_equil G)),
               p_pos = expm L (sdiv L (smul L (smul L l_free 2) (g_pw G)) pi),
               p_neg = expm L (sdiv L (smul L (smul L l_free (- 2)) (g_pw G)) pi),
               p_90px = p_90px',
               p_90py = p_90py',
               p_90mx = p_90mx',
               p_90my = p_90my',
               p_180px = matrix_power L p_90px' 2,
               p_180py = p_180py',
               p_180mx = matrix_power L p_90mx' 2,
               p_180my = p_180my',
               p_180pmy = sdiv L (madd L p_180py' p_180my') 2 \<rparr>))"

text \<open>
  \<open>reduce(dot, [m0, m1, ...])\<close> multiplies from the left; every list below has an element.
\<close>

definition reduce_dot :: "'m linalg \<Rightarrow> 'm list \<Rightarrow> 'm" where
  "reduce_dot L ms = foldl (dot L) (hd ms) (tl ms)"

definition phase_1 :: "nat list" where
  "phase_1 = [0, 0, 1, 3, 0, 0, 3, 1, 0, 0, 3, 1, 0, 0, 1, 3]"

definition phase_2 :: "nat list" where
  "phase_2 = [1, 3, 2, 2, 3, 1, 2, 2, 3, 1, 2, 2, 1, 3, 2, 2]"

definition p_180s :: "'m propagators \<Rightarrow> 'm list" where
  "p_180s ps = [p_180px ps, p_180py ps, p_180mx ps, p_180my ps]"

text \<open>
  \<open>time_t2 / (4.0 * ncyc) - w\<close>: a division of floats, \<open>ZeroDivisionError\<close> for
  \<open>ncyc = 0\<close>.
\<close>

definition t_cp_of :: "real \<Rightarrow> int \<Rightarrow> real \<Rightarrow> error + real" where
  "t_cp_of t2 n w = (if 4 * real_of_int n = 0 then Inl ZeroDivisionError
                      else Inr (t2 / (4 * real_of_int n) - w))"

text \<open>
  The four branches of \<open>_calc_observable\<close>: with \<open>'y'\<close> in \<open>fh_flg\<close> or not, at
  \<open>ncyc == 0\<close> or not.
\<close>

definition mag_ref_y :: "'m linalg \<Rightarrow> 'm propagators \<Rightarrow> 'm \<Rightarrow> 'm" where
  "mag_ref_y L ps mag_eq = reduce_dot L [p_equil ps, p_90py ps, p_180pmy ps, p_90py ps, mag_eq]"

definition mag_train_y ::
  "'m linalg \<Rightarrow> geometry \<Rightarrow> 'm \<Rightarrow> 'm propagators \<Rightarrow> 'm \<Rightarrow> int \<Rightarrow> error + 'm" where
  "mag_train_y L G l_free ps mag_eq n =
     (case t_cp_of (g_time_t2 G) n (g_pw G) of
        Inl e \<Rightarrow> Inl e
      | Inr t_cp \<Rightarrow>
          let p_free = expm L (smul L l_free t_cp);
              p_cp = matrix_power L (dot L (dot L p_free (p_180px ps)) p_free) n
          in Inr (reduce_dot L [p_equil ps, p_90py ps, p_neg ps, p_cp, p_180pmy ps, p_cp,
                                p_neg ps, p_90py ps, mag_eq]))"

definition mag_ref_n :: "'m linalg \<Rightarrow> geometry \<Rightarrow> 'm propagators \<Rightarrow> 'm \<Rightarrow> 'm \<Rightarrow> 'm" where
  "mag_ref_n L G ps p_free_pw mag_eq =
     (let mag1 = reduce_dot L [p_equil ps, matrix_power L p_free_pw (g_ncyc_max G - 1), p_90my ps,
                               p_180px ps, p_pos ps, p_pos ps, p_180px ps, p_90py ps, mag_eq];
          mag2 = reduce_dot L [p_equil ps, matrix_power L p_free_pw (g_ncyc_max G - 1), p_90my ps,
                               p_180my ps, p_pos ps, p_pos ps, p_180py ps, p_90py ps, mag_eq]
      in sdiv L (madd L mag1 mag2) 2)"

fun cp_loop :: "'m linalg \<Rightarrow> 'm \<Rightarrow> 'm list \<Rightarrow> nat list \<Rightarrow> nat list \<Rightarrow> 'm \<Rightarrow> 'm" where
  "cp_loop L p_free p180 phase [] p_cp = p_cp"
| "cp_loop L p_free p180 phase (m # ms) p_cp =
     cp_loop L p_free p180 phase ms
       (dot L (dot L (dot L p_free (p180 ! (phase ! (m mod length phase)))) p_free) p_cp)"

definition mag_train_n ::
  "'m linalg \<Rightarrow> geometry \<Rightarrow> 'm \<Rightarrow> 'm propagators \<Rightarrow> 'm \<Rightarrow> 'm \<Rightarrow> int \<Rightarrow> error + 'm" where
  "mag_train_n L G l_free ps p_free_pw mag_eq n =
     (case t_cp_of (g_time_t2 G) n (g_pw G * (3 / 4)) of
        Inl e \<Rightarrow> Inl e
      | Inr t_cp \<Rightarrow>
          let p_free = expm L (smul L l_free t_cp);
              p_cp1 = cp_loop L p_free (p_180s ps) phase_1 [0..<nat (n * 2)] (eye L 6);
              p_cp2 = cp_loop L p_free (p_180s ps) phase_2 [0..<nat (n * 2)] (eye L 6);
              mag1 = reduce_dot L [p_equil ps, matrix_power L p_free_pw (g_ncyc_max G - n),
                                   p_90my ps, p_neg ps, p_cp1, p_neg ps, p_90py ps, mag_eq];
              mag2 = reduce_dot L [p_equil ps, matrix_power L p_free_pw (g_ncyc_max G - n),
                                   p_90my ps, p_neg ps, p_cp2, p_neg ps, p_90py ps, mag_eq]
          in Inr (sdiv L (madd L mag1 mag2) 2))"

text \<open>
  \<open>_calc_observable\<close> from the propagators on: the equilibrium magnetisation, the
  branch, and the \<open>z\<close> magnetisation of state \<open>a\<close>.
\<close>

definition observable_of ::
  "'m linalg \<Rightarrow> geometry \<Rightarrow> 'm \<times> 'm propagators \<Rightarrow> obs_args \<Rightarrow> error + real" where
  "observable_of L G lp a =
     (let (l_free, ps) = lp;
          mag_eq = compute_nz_eq L (pb a);
          mag =
            (if CHR ''y'' \<in> set (g_fh_flg G) then
               (if ncyc a = 0 then Inr (mag_ref_y L ps mag_eq)
                else mag_train_y L G l_free ps mag_eq (ncyc a))
             else
               (let p_free_pw = expm L (smul L l_free (g_pw G))
                in if ncyc a = 0 then Inr (mag_ref_n L G ps p_free_pw mag_eq)
                   else mag_train_n L G l_free ps p_free_pw mag_eq (ncyc a)))
      in case mag of Inl e \<Rightarrow> Inl e | Inr m \<Rightarrow> Inr (fst (get_nz L m)))"

text \<open>
  Modelled from the spec: \<open>chemex.caching.lru_cache\<close>, which is not among the sources.
  The spec: each layer is "keyed by a tuple of the exact floating-point argument values",
  of bounded size, "eviction policy: least-recently-used; eviction never raises an
  error, only recomputation cost". A cache is the list of its entries, the most
  recently used first: a hit moves the entry to the front, a miss stores the new entry
  at the front and drops the entries beyond the capacity. A call that raises stores
  nothing.
\<close>

definition lru_hit :: "'k \<Rightarrow> 'v \<Rightarrow> ('k \<times> 'v) list \<Rightarrow> ('k \<times> 'v) list" where
  "lru_hit k v cache = (k, v) # filter (\<lambda>e. fst e \<noteq> k) cache"

definition lru_miss :: "nat \<Rightarrow> 'k \<Rightarrow> 'v \<Rightarrow> ('k \<times> 'v) list \<Rightarrow> ('k \<times> 'v) list" where
  "lru_miss capacity k v cache = take capacity ((k, v) # cache)"

text \<open>
  The state of one \<open>calc_observable\<close>: the cache of \<open>_calc_observable\<close> (capacity 100),
  the cache of \<open>make_propagators\<close> (capacity 1), and the number of times the body of
  \<open>make_propagators\<close> has computed its matrix exponentials.
\<close>

record 'm caches =
  outer :: "(obs_args \<times> real) list"
  inner :: "(prop_key \<times> 'm \<times> 'm propagators) list"
  n_make :: nat

definition empty_caches :: "'m caches" where
  "empty_caches = \<lparr> outer = [], inner = [], n_make = 0 \<rparr>"

definition make_propagators ::
  "'m linalg \<Rightarrow> geometry \<Rightarrow> 'm caches \<Rightarrow> prop_key \<Rightarrow> (error + 'm \<times> 'm propagators) \<times> 'm caches" where
  "make_propagators L G st key =
     (case map_of (inner st) key of
        Some lp \<Rightarrow> (Inr lp, st\<lparr> inner := lru_hit key lp (inner st) \<rparr>)
      | None \<Rightarrow>
          (case make_propagators_body L G key of
             Inl e \<Rightarrow> (Inl e, st)
           | Inr lp \<Rightarrow>
               (Inr lp, st\<lparr> inner := lru_miss 1 key lp (inner st), n_make := n_make st + 1 \<rparr>)))"

text \<open>
  \<open>dw *= ppm_to_rads\<close>, \<open>cs_offset = (cs - carrier) * ppm_to_rads\<close>, then the call of
  \<open>make_propagators\<close> with these seven arguments.
\<close>

definition key_of :: "geometry \<Rightarrow> obs_args \<Rightarrow> prop_key" where
  "key_of G a =
     (pb a, kex a, dw a * g_ppm_to_rads G, r_nxy a, dr_nxy a, r_nz a,
      (cs a - g_carrier G) * g_ppm_to_rads G)"

definition calc_observable_cached ::
  "'m linalg \<Rightarrow> geometry \<Rightarrow> 'm caches \<Rightarrow> obs_args \<Rightarrow> (error + real) \<times> 'm caches" where
  "calc_observable_cached L G st a =
     (case map_of (outer st) a of
        Some v \<Rightarrow> (Inr v, st\<lparr> outer := lru_hit a v (outer st) \<rparr>)
      | None \<Rightarrow>
          (case make_propagators L G st (key_of G a) of
             (Inl e, st1) \<Rightarrow> (Inl e, st1)
           | (Inr lp, st1) \<Rightarrow>
               (case observable_of L G lp a of
                  Inl e \<Rightarrow> (Inl e, st1)
                | Inr v \<Rightarrow> (Inr v, st1\<lparr> outer := lru_miss 100 a v (outer st1) \<rparr>))))"

text \<open>
  \<open>calc_observable\<close>, declared with \<open>i0=0.0\<close>, returns \<open>i0\<close> times the value of
  \<open>_calc_observable\<close> at the other keyword arguments; an absent \<open>i0\<close> is \<open>None\<close>.
\<close>

definition calc_observable ::
  "'m linalg \<Rightarrow> geometry \<Rightarrow> 'm caches \<Rightarrow> real option \<Rightarrow> obs_args \<Rightarrow> (error + real) \<times> 'm caches" where
  "calc_observable L G st i0 a =
     (let i0' = (case i0 of None \<Rightarrow> 0 | Some x \<Rightarrow> x);
          (r, st') = calc_observable_cached L G st a
      in (case r of Inl e \<Rightarrow> Inl e | Inr v \<Rightarrow> Inr (i0' * v), st'))"

text \<open>
  What \<open>_calc_observable\<close> computes without its caches, and the coherence of a state:
  every cached value is the value of the function at its key, and the inner cache holds
  at most one entry.
\<close>

definition observable_pure :: "'m linalg \<Rightarrow> geometry \<Rightarrow> obs_args \<Rightarrow> error + real" where
  "observable_pure L G a =
     (case make_propagators_body L G (key_of G a) of
        Inl e \<Rightarrow> Inl e
      | Inr lp \<Rightarrow> observable_of L G lp a)"

definition caches_ok :: "'m linalg \<Rightarrow> geometry \<Rightarrow> 'm caches \<Rightarrow> bool" where
  "caches_ok L G st \<longleftrightarrow>
     (\<forall>(a, v)\<in>set (outer st). observable_pure L G a = Inr v) \<and>
     (\<forall>(k, lp)\<in>set (inner st). make_propagators_body L G k = Inr lp) \<and>
     length (inner st) \<le> 1"

section \<open>Example data\<close>

text \<open>
  A profile of three points, one of them a reference point, and two observable functions:
  one that is identically zero and one that is 1 at the reference point and 1/2 elsewhere.
\<close>

definition obs_zero :: "(string \<times> real) list \<Rightarrow> int \<Rightarrow> real" where
  "obs_zero kwargs n = 0"

definition obs_decay :: "(string \<times> real) list \<Rightarrow> int \<Rightarrow> real" where
  "obs_decay kwargs n = (if n = 0 then 1 else 1 / 2)"

definition profile_a :: profile where
  "profile_a = CPMGProfile_init ''G23N-H'' [(0, 10, 1), (2, 4, 1), (4, 6, 2)] (1 / 25) 0"

text \<open>
  Two random streams (the draws 0, 1, 2, ... and the constant draw 1) and a profile whose
  cycle counts are not in increasing order.
\<close>

definition rnd_id :: "nat \<Rightarrow> nat" where
  "rnd_id k = k"

definition rnd_one :: "nat \<Rightarrow> nat" where
  "rnd_one k = 1"

definition profile_b :: profile where
  "profile_b = CPMGProfile_init ''G23N-H'' [(2, 4, 1), (1, 6, 2)] (1 / 25) 0"

text \<open>
  Parameters \<open>a\<close> and \<open>b\<close> free, \<open>c\<close> fixed; profiles named after the parameters they
  reference; a stand-in for the labels (the length of a name, intersected by \<open>min\<close>).
\<close>

definition free_param :: param where
  "free_param = \<lparr> param_value = 1, param_vary = True, param_expr = [], delay_asteval = False \<rparr>"

definition fixed_param :: param where
  "fixed_param = \<lparr> param_value = 1, param_vary = False, param_expr = [], delay_asteval = False \<rparr>"

definition params_ab :: params where
  "params_ab = [''a'' \<mapsto> free_param, ''b'' \<mapsto> free_param, ''c'' \<mapsto> fixed_param]"

definition label_len :: "string \<Rightarrow> nat" where
  "label_len s = length s"

definition label_min :: "nat \<Rightarrow> nat \<Rightarrow> nat" where
  "label_min a b = min a b"

definition prof_keys :: "string \<times> string list \<Rightarrow> string list" where
  "prof_keys p = snd p"

definition prof_ac :: "string \<times> string list" where
  "prof_ac = (''P1'', [''a'', ''c''])"

definition prof_bc :: "string \<times> string list" where
  "prof_bc = (''P2'', [''b'', ''c''])"

definition prof_ab :: "string \<times> string list" where
  "prof_ab = (''P3'', [''a'', ''b''])"

definition prof_c :: "string \<times> string list" where
  "prof_c = (''P4'', [''c''])"

text \<open>
  A stand-in for the linear algebra, with numbers for matrices (\<open>1 + x\<close> for \<open>expm\<close>,
  vanishing generators, equilibrium magnetisation \<open>1 - pb\<close>), a geometry, the propagators
  it gives, and a second argument record.
\<close>

definition lin1 :: "real linalg" where
  "lin1 = \<lparr> expm = (\<lambda>x. 1 + x), dot = (\<lambda>x y. x * y), matrix_power = (\<lambda>x n. x ^ nat n),
            eye = (\<lambda>n. 1), madd = (\<lambda>x y. x + y), msub = (\<lambda>x y. x - y),
            smul = (\<lambda>x t. x * t), sdiv = (\<lambda>x t. x / t),
            compute_liouvillians = (\<lambda>key w1. (0, 0, 0)),
            compute_nz_eq = (\<lambda>p. 1 - p),
            get_nz = (\<lambda>m. (m, 0)) \<rparr>"

definition geom1 :: geometry where
  "geom1 = \<lparr> g_pw = 1 / 100000, g_time_t2 = 1 / 25, g_time_equil = 0, g_ncyc_max = 10,
             g_fh_flg = ''n'', g_ppm_to_rads = 1, g_carrier = 0 \<rparr>"

definition props1 :: "real propagators" where
  "props1 = \<lparr> p_equil = 1, p_pos = 1, p_neg = 1, p_90px = 1, p_90py = 1, p_90mx = 1, p_90my = 1,
              p_180px = 1, p_180py = 1, p_180mx = 1, p_180my = 1, p_180pmy = 1 \<rparr>"

definition args_b :: obs_args where
  "args_b = default_args\<lparr> pb := 1 / 20 \<rparr>"

section \<open>Properties of the profile\<close>

lemma den_triples:
  fixes cal :: "real list"
  shows "length cal = length vs \<Longrightarrow> length vs = length es \<Longrightarrow>
   sum_list (map (\<lambda>(c, e). (c / e) ^ 2) (zip cal es)) =
   sum_list (map (\<lambda>(c, v, e). (c / e) ^ 2) (zip cal (zip vs es)))"
  by (induction cal vs es rule: list_induct3) auto

lemma rss_expand:
  fixes t :: real
  shows "sum_list (map (\<lambda>(c, v, e). ((t * c - v) / e) ^ 2) zs) =
   t ^ 2 * sum_list (map (\<lambda>(c, v, e). (c / e) ^ 2) zs)
   - 2 * t * sum_list (map (\<lambda>(c, v, e). c * v / e ^ 2) zs)
   + sum_list (map (\<lambda>(c, v, e). (v / e) ^ 2) zs)"
proof (induction zs)
  case Nil
  then show ?case by simp
next
  case (Cons z zs)
  obtain c v e where z: "z = (c, v, e)" by (cases z) auto
  have "((t * c - v) / e) ^ 2 = t ^ 2 * (c / e) ^ 2 - 2 * t * (c * v / e ^ 2) + (v / e) ^ 2"
    by (simp add: power2_eq_square field_simps diff_divide_distrib)
  with Cons z show ?case by (simp add: algebra_simps)
qed

lemma den_pos:
  fixes cal :: "real list"
  shows "length cal = length es \<Longrightarrow> 0 \<notin> set es \<Longrightarrow> \<exists>c\<in>set cal. c \<noteq> 0 \<Longrightarrow>
   0 < sum_list (map (\<lambda>(c, e). (c / e) ^ 2) (zip cal es))"
proof (induction cal es rule: list_induct2)
  case Nil
  then show ?case by simp
next
  case (Cons c cs e es)
  have nn: "0 \<le> sum_list (map (\<lambda>(c, e). (c / e) ^ 2) (zip cs es))"
    by (rule sum_list_nonneg) (auto simp: in_set_zip)
  show ?case
  proof (cases "c = 0")
    case True
    with Cons show ?thesis by auto
  next
    case False
    with Cons.prems have pos: "0 < (c / e) ^ 2" by auto
    have "0 < (c / e) ^ 2 + sum_list (map (\<lambda>(c, e). (c / e) ^ 2) (zip cs es))"
      by (rule add_pos_nonneg [OF pos nn])
    then show ?thesis by (simp del: zero_less_power2)
  qed
qed


lemma least_squares_min:
  fixes A B C :: real
  assumes "0 < A"
  shows "(B / A) ^ 2 * A - 2 * (B / A) * B + C \<le> t ^ 2 * A - 2 * t * B + C"
proof -
  have "t ^ 2 * A - 2 * t * B + C - ((B / A) ^ 2 * A - 2 * (B / A) * B + C) = A * (t - B / A) ^ 2"
    using assms by (simp add: power2_eq_square field_simps)
  moreover have "0 \<le> A * (t - B / A) ^ 2" using assms by simp
  ultimately show ?thesis by linarith
qed



lemma calculate_scale_Inr:
  assumes "length cal = length (val p)" "length (val p) = length (err p)"
    "\<forall>e\<in>set (err p). 0 < e" "\<exists>c\<in>set cal. c \<noteq> 0"
  shows "0 < scale_denominator p cal"
    and "calculate_scale p cal = Inr (scale_numerator p cal / scale_denominator p cal)"
proof -
  from assms(3) have nz: "0 \<notin> set (err p)" by auto
  from assms(4) have ne: "cal \<noteq> []" by auto
  show pos: "0 < scale_denominator p cal"
    unfolding scale_denominator_def using assms nz by (intro den_pos) auto
  with assms(1,2) nz ne show "calculate_scale p cal = Inr (scale_numerator p cal / scale_denominator p cal)"
    by (simp add: calculate_scale_def)
qed

lemma rss_minimal:
  assumes "length cal = length (val p)" "length (val p) = length (err p)"
    "0 < scale_denominator p cal"
  shows "rss p cal (scale_numerator p cal / scale_denominator p cal) \<le> rss p cal t"
proof -
  have d: "scale_denominator p cal =
      sum_list (map (\<lambda>(c, v, e). (c / e) ^ 2) (zip cal (zip (val p) (err p))))"
    unfolding scale_denominator_def using assms(1,2) by (rule den_triples)
  show ?thesis
    unfolding rss_def rss_expand d [symmetric] scale_numerator_def [symmetric]
    by (rule least_squares_min [OF assms(3)])
qed



lemma CPMGProfile_init_ok: "profile_ok (CPMGProfile_init name ms t2 w)"
  by (simp add: profile_ok_def CPMGProfile_init_def)

lemma num_index:
  fixes cal :: "real list"
  assumes "length cal = length vs" "length vs = length es"
  shows "sum_list (map (\<lambda>(c, v, e). c * v / e ^ 2) (zip cal (zip vs es))) =
         (\<Sum>i<length cal. cal ! i * vs ! i / (es ! i) ^ 2)"
proof -
  have "sum_list (map (\<lambda>(c, v, e). c * v / e ^ 2) (zip cal (zip vs es))) =
        (\<Sum>i = 0..<length cal. map (\<lambda>(c, v, e). c * v / e ^ 2) (zip cal (zip vs es)) ! i)"
    using assms by (simp add: sum_list_sum_nth)
  also have "\<dots> = (\<Sum>i = 0..<length cal. cal ! i * vs ! i / (es ! i) ^ 2)"
    using assms by (intro sum.cong) auto
  finally show ?thesis by (simp add: atLeast0LessThan)
qed

lemma den_index:
  fixes cal :: "real list"
  assumes "length cal = length es"
  shows "sum_list (map (\<lambda>(c, e). (c / e) ^ 2) (zip cal es)) =
         (\<Sum>i<length cal. (cal ! i / es ! i) ^ 2)"
proof -
  have "sum_list (map (\<lambda>(c, e). (c / e) ^ 2) (zip cal es)) =
        (\<Sum>i = 0..<length cal. map (\<lambda>(c, e). (c / e) ^ 2) (zip cal es) ! i)"
    using assms by (simp add: sum_list_sum_nth)
  also have "\<dots> = (\<Sum>i = 0..<length cal. (cal ! i / es ! i) ^ 2)"
    using assms by (intro sum.cong) auto
  finally show ?thesis by (simp add: atLeast0LessThan)
qed

text \<open>
  C5 (amended). For a profile with strictly positive uncertainties whose parameter names
  all resolve and whose unscaled predicted curve has at least one nonzero value,
  \<open>calculate_profile\<close> computes the scale as
  \<open>\<Sum>(predicted * measured / err\<^sup>2) / \<Sum>(predicted / err)\<^sup>2\<close>, this scale minimises the
  residual sum of squares over all real scales, and the returned curve is the predicted
  curve times the scale, elementwise. (Floats idealised as reals.)
\<close>

theorem calculate_profile_least_squares:
  assumes "profile_ok p" and "\<forall>e\<in>set (err p). 0 < e"
    and "make_kwargs ps (map_names p) = Inr kwargs"
    and "cal = calculate_unscaled_profile obs p kwargs"
    and "\<exists>c\<in>set cal. c \<noteq> 0"
  shows "\<exists>scale.
           calculate_scale p cal = Inr scale
         \<and> scale = (\<Sum>i<length cal. cal ! i * val p ! i / (err p ! i) ^ 2)
                  / (\<Sum>i<length cal. (cal ! i / err p ! i) ^ 2)
         \<and> (\<forall>t. rss p cal scale \<le> rss p cal t)
         \<and> calculate_profile obs p ps = Inr (map (\<lambda>x. x * scale) cal)"
proof -
  from assms(1,4) have len: "length cal = length (val p)" "length (val p) = length (err p)"
    by (simp_all add: profile_ok_def calculate_unscaled_profile_def)
  let ?s = "scale_numerator p cal / scale_denominator p cal"
  have pos: "0 < scale_denominator p cal"
    and sc: "calculate_scale p cal = Inr ?s"
    using calculate_scale_Inr [OF len assms(2,5)] by simp_all
  have idx: "?s = (\<Sum>i<length cal. cal ! i * val p ! i / (err p ! i) ^ 2)
                  / (\<Sum>i<length cal. (cal ! i / err p ! i) ^ 2)"
    unfolding scale_numerator_def scale_denominator_def
    using num_index [OF len] den_index [of cal "err p"] len by simp
  have mn: "\<forall>t. rss p cal ?s \<le> rss p cal t"
    using rss_minimal [OF len pos] by simp
  have pr: "calculate_profile obs p ps = Inr (map (\<lambda>x. x * ?s) cal)"
    using assms(3,4) sc by (simp add: calculate_profile_def Let_def)
  from sc idx mn pr show ?thesis by blast
qed

theorem calculate_profile_least_squares_witness:
  "profile_ok profile_a \<and> err profile_a = [1, 1, 2]
   \<and> make_kwargs Map.empty (map_names profile_a) = Inr []
   \<and> calculate_unscaled_profile obs_decay profile_a [] = [1, 1 / 2, 1 / 2]
   \<and> (\<exists>scale. calculate_scale profile_a [1, 1 / 2, 1 / 2] = Inr scale
        \<and> (\<forall>t. rss profile_a [1, 1 / 2, 1 / 2] scale \<le> rss profile_a [1, 1 / 2, 1 / 2] t)
        \<and> calculate_profile obs_decay profile_a Map.empty = Inr (map (\<lambda>x. x * scale) [1, 1 / 2, 1 / 2]))"
proof -
  have ok: "profile_ok profile_a"
    by (simp add: profile_a_def profile_ok_def CPMGProfile_init_def)
  have e: "\<forall>e\<in>set (err profile_a). 0 < e"
    by (simp add: profile_a_def CPMGProfile_init_def)
  have k: "make_kwargs Map.empty (map_names profile_a) = Inr []"
    by (simp add: profile_a_def CPMGProfile_init_def)
  have c: "[1, 1 / 2, 1 / 2] = calculate_unscaled_profile obs_decay profile_a []"
    by (simp add: profile_a_def CPMGProfile_init_def calculate_unscaled_profile_def obs_decay_def)
  have n: "\<exists>c\<in>set [1, 1 / 2, 1 / 2 :: real]. c \<noteq> 0" by simp
  have e': "err profile_a = [1, 1, 2]"
    by (simp add: profile_a_def CPMGProfile_init_def)
  from calculate_profile_least_squares [OF ok e k c n] ok e' k c show ?thesis
    by auto
qed

text \<open>
  C5 as stated fails where the predicted curve is identically zero: the denominator is
  zero, there is no scale, and \<open>calculate_profile\<close> returns no finite curve.
\<close>

theorem calculate_profile_zero_curve_counterexample:
  "profile_ok profile_a \<and> calculate_profile obs_zero profile_a Map.empty = Inl NotFinite"
  by (simp add: profile_a_def profile_ok_def CPMGProfile_init_def calculate_profile_def
      calculate_unscaled_profile_def obs_zero_def calculate_scale_def scale_denominator_def)




subsection \<open>Resampling\<close>

lemma random_choice_Inr:
  assumes "n = length pool"
  shows "\<exists>bs. random_choice rnd off pool n = Inr bs \<and> length bs = n \<and> set bs \<subseteq> set pool"
proof (cases "pool = []")
  case True
  with assms show ?thesis by (simp add: random_choice_def)
next
  case False
  then have "\<And>r. pool ! (r mod length pool) \<in> set pool" by simp
  with False show ?thesis by (auto simp: random_choice_def)
qed

lemma length_filter_nth:
  "length (filter (\<lambda>i. P (xs ! i)) [0..<length xs]) = length (filter P xs)"
proof -
  have "length (filter P (map (\<lambda>i. xs ! i) [0..<length xs])) =
        length (filter (\<lambda>i. P (xs ! i)) [0..<length xs])"
    by (simp add: filter_map comp_def)
  then show ?thesis by (simp add: map_nth)
qed

lemma length_filter_sort:
  "length (filter P (sort xs)) = length (filter P xs)"
  by (simp add: filter_sort)

lemma boolean_mask_upt:
  "boolean_mask [0..<length xs] (map f xs) = Inr (filter (\<lambda>i. f (xs ! i)) [0..<length xs])"
proof -
  have a: "filter (\<lambda>i. map f xs ! i) [0..<length xs] = filter (\<lambda>i. f (xs ! i)) [0..<length xs]"
    by (rule filter_cong) auto
  have b: "map (\<lambda>i. [0..<length xs] ! i) (filter (\<lambda>i. f (xs ! i)) [0..<length xs])
         = filter (\<lambda>i. f (xs ! i)) [0..<length xs]"
    by (rule map_idI) auto
  show ?thesis by (simp add: boolean_mask_def a b)
qed

lemma take_indices_Inr:
  assumes "\<forall>i\<in>set idx. i < length xs"
  shows "take_indices xs idx = Inr (map (\<lambda>i. xs ! i) idx)"
proof -
  have "\<not> (\<exists>i\<in>set idx. length xs \<le> i)"
    using assms by (meson not_le)
  then show ?thesis by (simp add: take_indices_def)
qed

lemma length_filter_all: "\<forall>x\<in>set xs. P x \<Longrightarrow> length (filter P xs) = length xs"
  by (induction xs) auto

lemma length_filter_none: "\<forall>x\<in>set xs. \<not> P x \<Longrightarrow> length (filter P xs) = 0"
  by (induction xs) auto

lemma sorted_map_nth:
  fixes xs :: "int list"
  assumes "sorted xs" "sorted idx" "\<forall>i\<in>set idx. i < length xs"
  shows "sorted (map (\<lambda>i. xs ! i) idx)"
  using assms(2,3)
proof (induction idx)
  case Nil
  then show ?case by simp
next
  case (Cons i idx)
  then have "\<forall>j\<in>set idx. xs ! i \<le> xs ! j"
    using assms(1) by (auto intro: sorted_nth_mono)
  with Cons show ?case by simp
qed

text \<open>
  C4 (amended). For every profile as the constructor builds it, \<open>make_bs_profile\<close>
  returns a profile with as many reference points (cycle count 0) and as many
  non-reference points as the input; its points are the input's points at a list of
  indexes in non-decreasing order (the same index for \<open>ncyc\<close>, \<open>val\<close> and \<open>err\<close>), so the
  output keeps the input's order of points, and its cycle counts are in non-decreasing
  order whenever the input's are.
\<close>

theorem make_bs_profile_resamples:
  assumes "profile_ok p"
  shows "\<exists>q idx. make_bs_profile rnd p = Inr q
     \<and> length (filter (\<lambda>n. n = 0) (ncycs q)) = length (filter (\<lambda>n. n = 0) (ncycs p))
     \<and> length (filter (\<lambda>n. n \<noteq> 0) (ncycs q)) = length (filter (\<lambda>n. n \<noteq> 0) (ncycs p))
     \<and> sorted idx \<and> (\<forall>i\<in>set idx. i < length (ncycs p))
     \<and> ncycs q = map (\<lambda>i. ncycs p ! i) idx
     \<and> val q = map (\<lambda>i. val p ! i) idx
     \<and> err q = map (\<lambda>i. err p ! i) idx
     \<and> (sorted (ncycs p) \<longrightarrow> sorted (ncycs q))"
proof -
  let ?n = "length (ncycs p)"
  let ?Z = "\<lambda>i. ncycs p ! i = 0"
  from assms have len: "length (val p) = ?n" "length (err p) = ?n" "length (tau_cp_list p) = ?n"
    and ref: "reference p = map (\<lambda>n. n = 0) (ncycs p)"
    by (simp_all add: profile_ok_def)
  let ?pool1 = "filter ?Z [0..<?n]"
  let ?pool2 = "filter (\<lambda>i. \<not> ?Z i) [0..<?n]"
  have p1: "boolean_mask [0..<length (val p)] (reference p) = Inr ?pool1"
    unfolding len ref by (rule boolean_mask_upt)
  have p2: "boolean_mask [0..<length (val p)] (map Not (reference p)) = Inr ?pool2"
    unfolding len ref map_map using boolean_mask_upt [of "ncycs p" "Not \<circ> (\<lambda>n. n = 0)"] by simp
  obtain bs1 where bs1: "(if ?pool1 \<noteq> [] then random_choice rnd 0 ?pool1 (length ?pool1) else Inr []) = Inr bs1"
    "length bs1 = length ?pool1" "set bs1 \<subseteq> set ?pool1"
    using random_choice_Inr [of "length ?pool1" ?pool1 rnd 0] by (cases "?pool1 = []") auto
  obtain bs2 where bs2: "random_choice rnd (length bs1) ?pool2 (length ?pool2) = Inr bs2"
    "length bs2 = length ?pool2" "set bs2 \<subseteq> set ?pool2"
    using random_choice_Inr [of "length ?pool2" ?pool2 rnd "length bs1"] by auto
  let ?idx = "sort (bs1 @ bs2)"
  have rng: "\<forall>i\<in>set ?idx. i < ?n"
    using bs1(3) bs2(3) by auto
  have t: "\<And>xs :: int list. length xs = ?n \<Longrightarrow> take_indices xs ?idx = Inr (map (\<lambda>i. xs ! i) ?idx)"
    "\<And>xs :: real list. length xs = ?n \<Longrightarrow> take_indices xs ?idx = Inr (map (\<lambda>i. xs ! i) ?idx)"
    using rng by (simp_all add: take_indices_Inr)
  let ?q = "p\<lparr> ncycs := map (\<lambda>i. ncycs p ! i) ?idx, tau_cp_list := map (\<lambda>i. tau_cp_list p ! i) ?idx,
               val := map (\<lambda>i. val p ! i) ?idx, err := map (\<lambda>i. err p ! i) ?idx \<rparr>"
  have res: "make_bs_profile rnd p = Inr ?q"
    unfolding make_bs_profile_def Let_def p1 p2 sum.case bs1(1) bs2(1)
    using t(1) [of "ncycs p"] t(2) [OF len(1)] t(2) [OF len(2)] t(2) [OF len(3)] by simp
  have z1: "length (filter ?Z bs1) = length bs1" using bs1(3) by (intro length_filter_all) auto
  have z2: "length (filter ?Z bs2) = 0" using bs2(3) by (intro length_filter_none) auto
  have n1: "length (filter (\<lambda>i. \<not> ?Z i) bs1) = 0" using bs1(3) by (intro length_filter_none) auto
  have n2: "length (filter (\<lambda>i. \<not> ?Z i) bs2) = length bs2" using bs2(3) by (intro length_filter_all) auto
  have c0: "length (filter (\<lambda>n. n = 0) (ncycs ?q)) = length (filter (\<lambda>n. n = 0) (ncycs p))"
  proof -
    have "length (filter (\<lambda>n. n = 0) (ncycs ?q)) = length (filter ?Z ?idx)"
      by (simp add: filter_map comp_def)
    also have "\<dots> = length (filter ?Z (bs1 @ bs2))" by (rule length_filter_sort)
    also have "\<dots> = length ?pool1" using z1 z2 bs1(2) by simp
    also have "\<dots> = length (filter (\<lambda>n. n = 0) (ncycs p))" by (rule length_filter_nth)
    finally show ?thesis .
  qed
  have c1: "length (filter (\<lambda>n. n \<noteq> 0) (ncycs ?q)) = length (filter (\<lambda>n. n \<noteq> 0) (ncycs p))"
  proof -
    have "length (filter (\<lambda>n. n \<noteq> 0) (ncycs ?q)) = length (filter (\<lambda>i. \<not> ?Z i) ?idx)"
      by (simp add: filter_map comp_def)
    also have "\<dots> = length (filter (\<lambda>i. \<not> ?Z i) (bs1 @ bs2))" by (rule length_filter_sort)
    also have "\<dots> = length ?pool2" using n1 n2 bs2(2) by simp
    also have "\<dots> = length (filter (\<lambda>n. n \<noteq> 0) (ncycs p))" by (rule length_filter_nth)
    finally show ?thesis .
  qed
  have s: "sorted (ncycs p) \<longrightarrow> sorted (ncycs ?q)"
    using sorted_map_nth [of "ncycs p" ?idx] rng by simp
  have "sorted ?idx" by simp
  with res c0 c1 rng s show ?thesis
    by (intro exI [of _ ?q] exI [of _ ?idx]) simp
qed

lemma upt_2: "[0..<2] = [0, Suc 0]" by (simp add: upt_rec numeral_2_eq_2)
lemma upt_3: "[0..<3] = [0, Suc 0, 2]" by (simp add: upt_rec numeral_3_eq_3 numeral_2_eq_2)

text \<open>
  C4 as stated fails for a profile whose cycle counts are not sorted: the indexes are
  sorted, not the cycle counts.
\<close>

theorem make_bs_profile_unsorted_counterexample:
  "profile_ok profile_b \<and> sorted [0, Suc 0]
   \<and> map_sum id ncycs (make_bs_profile rnd_id profile_b) = Inr [2, 1]
   \<and> \<not> sorted [2, 1 :: int]"
  by (simp add: profile_b_def profile_ok_def CPMGProfile_init_def make_bs_profile_def
      boolean_mask_def random_choice_def take_indices_def rnd_id_def upt_2 Let_def)

theorem make_bs_profile_resamples_witness:
  "profile_ok profile_a \<and> ncycs profile_a = [0, 2, 4]
   \<and> (\<exists>q. make_bs_profile rnd_one profile_a = Inr q \<and> ncycs q = [0, 4, 4]
        \<and> val q = [10, 6, 6] \<and> err q = [1, 2, 2]
        \<and> length (filter (\<lambda>n. n = 0) (ncycs q)) = length (filter (\<lambda>n. n = 0) (ncycs profile_a))
        \<and> sorted (ncycs q))"
proof -
  have ok: "profile_ok profile_a"
    by (simp add: profile_a_def profile_ok_def CPMGProfile_init_def)
  have n: "ncycs profile_a = [0, 2, 4]"
    by (simp add: profile_a_def CPMGProfile_init_def)
  from make_bs_profile_resamples [OF ok, of rnd_one] obtain q idx where
    q: "make_bs_profile rnd_one profile_a = Inr q"
    and c: "length (filter (\<lambda>n. n = 0) (ncycs q)) = length (filter (\<lambda>n. n = 0) (ncycs profile_a))"
    and s: "sorted (ncycs profile_a) \<longrightarrow> sorted (ncycs q)"
    by blast
  have v: "map_sum id (\<lambda>q. (ncycs q, val q, err q)) (make_bs_profile rnd_one profile_a)
           = Inr ([0, 4, 4], [10, 6, 6], [1, 2, 2])"
    by (simp add: profile_a_def CPMGProfile_init_def make_bs_profile_def
      boolean_mask_def random_choice_def take_indices_def rnd_one_def upt_3 Let_def)
  from q v have "ncycs q = [0, 4, 4]" "val q = [10, 6, 6]" "err q = [1, 2, 2]" by simp_all
  moreover from s n have "sorted (ncycs q)" by simp
  ultimately show ?thesis using ok n q c by simp
qed

section \<open>Properties of the cluster partitioner\<close>

lemma vary_names_Inl: "vary_names ps names = Inl e \<Longrightarrow> \<exists>s. e = KeyError s"
  by (induction names arbitrary: e)
     (auto simp: params_get_def split: option.splits sum.splits)

lemma vary_names_Inr:
  "vary_names ps names = Inr vs \<Longrightarrow>
     set names \<subseteq> dom ps \<and> set vs = {n \<in> set names. is_free ps n}"
  by (induction names arbitrary: vs)
     (auto simp: params_get_def is_free_def split: option.splits sum.splits if_splits)

lemma vary_names_total:
  "set names \<subseteq> dom ps \<Longrightarrow> \<exists>vs. vary_names ps names = Inr vs"
  by (induction names) (auto simp: params_get_def split: option.splits sum.splits)

lemma build_clusters_Inl:
  "build_clusters keys ps data cl = Inl e \<Longrightarrow> \<exists>s. e = KeyError s"
  by (induction data arbitrary: cl) (auto split: sum.splits dest: vary_names_Inl)

lemma build_clusters_resolved:
  "build_clusters keys ps data cl = Inr cl' \<Longrightarrow> \<forall>q\<in>set data. set (keys q) \<subseteq> dom ps"
  by (induction data arbitrary: cl) (auto split: sum.splits dest: vary_names_Inr)

lemma build_clusters_total:
  "\<forall>q\<in>set data. set (keys q) \<subseteq> dom ps \<Longrightarrow> \<exists>cl'. build_clusters keys ps data cl = Inr cl'"
proof (induction data arbitrary: cl)
  case Nil
  then show ?case by simp
next
  case (Cons q data)
  then obtain vs where "vary_names ps (keys q) = Inr vs"
    using vary_names_total [of "keys q" ps] by auto
  with Cons show ?case by simp
qed

lemma add_profile_inv:
  assumes "\<forall>c\<in>set cl. cluster_inv ps keys c"
    and "set (keys prof) \<subseteq> dom ps" and "set vs = free_set ps keys prof"
  shows "\<forall>c\<in>set (add_profile prof (keys prof) vs cl). cluster_inv ps keys c"
  using assms(1)
proof (induction cl)
  case Nil
  with assms(2,3) show ?case by (auto simp: cluster_inv_def)
next
  case (Cons c cl)
  obtain dc pc vc where c: "c = (dc, pc, vc)" by (cases c) auto
  from Cons.prems c have "cluster_inv ps keys (dc, pc, vc)" by simp
  then have ci: "set pc \<subseteq> dom ps" "set vc = (\<Union>q\<in>set dc. free_set ps keys q)"
    "(\<exists>q\<in>set dc. free_set ps keys q = {}) \<longrightarrow> vc = []"
    unfolding cluster_inv_def by simp_all
  from Cons.prems have rest: "\<forall>c\<in>set cl. cluster_inv ps keys c" by simp
  show ?case
  proof (cases "\<exists>name\<in>set vs. name \<in> set vc")
    case True
    then obtain name where nm: "name \<in> set vs" "name \<in> set vc" by blast
    from nm(2) have ne1: "vc \<noteq> []" by (cases vc) simp_all
    from nm(1) assms(3) have ne2: "free_set ps keys prof \<noteq> {}" by blast
    from ne1 ci(3) have a: "\<forall>q\<in>set dc. free_set ps keys q \<noteq> {}" by blast
    have u: "set (vc @ filter (\<lambda>name. name \<notin> set vc) vs) = set vc \<union> set vs" by auto
    have m: "cluster_inv ps keys (dc @ [prof], pc @ keys prof, vc @ filter (\<lambda>name. name \<notin> set vc) vs)"
      unfolding cluster_inv_def prod.case u
    proof (intro conjI impI)
      show "set (pc @ keys prof) \<subseteq> dom ps" using ci(1) assms(2) by simp
      show "set vc \<union> set vs = (\<Union>q\<in>set (dc @ [prof]). free_set ps keys q)"
        unfolding ci(2) assms(3) by (simp add: Un_commute)
      assume "\<exists>q\<in>set (dc @ [prof]). free_set ps keys q = {}"
      with a ne2 show "vc @ filter (\<lambda>name. name \<notin> set vc) vs = []" by simp
    qed
    have "add_profile prof (keys prof) vs (c # cl) =
        (dc @ [prof], pc @ keys prof, vc @ filter (\<lambda>name. name \<notin> set vc) vs) # cl"
      using True c by simp
    with m rest show ?thesis by simp
  next
    case False
    then have "add_profile prof (keys prof) vs (c # cl) = c # add_profile prof (keys prof) vs cl"
      using c by simp
    with Cons.IH [OF rest] Cons.prems show ?thesis by simp
  qed
qed

lemma build_clusters_inv:
  "build_clusters keys ps data cl = Inr cl' \<Longrightarrow> \<forall>c\<in>set cl. cluster_inv ps keys c \<Longrightarrow>
     \<forall>c\<in>set cl'. cluster_inv ps keys c"
proof (induction data arbitrary: cl)
  case Nil
  then show ?case by simp
next
  case (Cons q data)
  from Cons.prems(1) obtain vs where vs: "vary_names ps (keys q) = Inr vs"
    and b: "build_clusters keys ps data (add_profile q (keys q) vs cl) = Inr cl'"
    by (cases "vary_names ps (keys q)") simp_all
  from vary_names_Inr [OF vs] have k: "set (keys q) \<subseteq> dom ps" "set vs = free_set ps keys q"
    by (simp_all add: free_set_def)
  have "\<forall>c\<in>set (add_profile q (keys q) vs cl). cluster_inv ps keys c"
    by (rule add_profile_inv [OF Cons.prems(2) k])
  with b show ?case by (rule Cons.IH)
qed

lemma add_profile_members:
  "(\<Union>c\<in>set (add_profile prof pn vs cl). set (fst c)) = insert prof (\<Union>c\<in>set cl. set (fst c))"
proof (induction cl)
  case Nil
  then show ?case by simp
next
  case (Cons c cl)
  obtain dc pc vc where c: "c = (dc, pc, vc)" by (cases c) auto
  show ?case
  proof (cases "\<exists>name\<in>set vs. name \<in> set vc")
    case True
    with c show ?thesis by simp
  next
    case False
    with c Cons.IH show ?thesis by simp
  qed
qed

lemma build_clusters_members:
  "build_clusters keys ps data cl = Inr cl' \<Longrightarrow>
     (\<Union>c\<in>set cl'. set (fst c)) = set data \<union> (\<Union>c\<in>set cl. set (fst c))"
proof (induction data arbitrary: cl)
  case Nil
  then show ?case by simp
next
  case (Cons q data)
  from Cons.prems obtain vs where
    b: "build_clusters keys ps data (add_profile q (keys q) vs cl) = Inr cl'"
    by (cases "vary_names ps (keys q)") simp_all
  from Cons.IH [OF b] show ?case by (simp add: add_profile_members)
qed

lemma stage_params_Inl:
  "stage_params ps names staged = Inl e \<Longrightarrow> \<exists>s. e = KeyError s"
proof (induction names arbitrary: ps staged)
  case Nil
  then show ?case by simp
next
  case (Cons n names)
  show ?case
  proof (cases "ps n")
    case None
    with Cons.prems show ?thesis by (auto simp: params_get_def)
  next
    case (Some q)
    with Cons.prems have "stage_params (ps(n \<mapsto> q\<lparr>delay_asteval := True\<rparr>)) names
        (if n \<in> set staged then staged else staged @ [n]) = Inl e"
      by (simp add: params_get_def)
    then show ?thesis by (rule Cons.IH)
  qed
qed

lemma stage_params_Inr:
  "set names \<subseteq> dom ps \<Longrightarrow>
     \<exists>ps' staged'. stage_params ps names staged = Inr (ps', staged') \<and> dom ps' = dom ps"
proof (induction names arbitrary: ps staged)
  case Nil
  then show ?case by simp
next
  case (Cons n names)
  from Cons.prems obtain q where q: "ps n = Some q" by auto
  define ps1 where "ps1 = ps(n \<mapsto> q\<lparr>delay_asteval := True\<rparr>)"
  define st1 where "st1 = (if n \<in> set staged then staged else staged @ [n])"
  have d: "dom ps1 = dom ps" using q by (auto simp: ps1_def)
  have step: "stage_params ps (n # names) staged = stage_params ps1 names st1"
    using q by (simp add: params_get_def ps1_def st1_def)
  from Cons.prems d have "set names \<subseteq> dom ps1" by simp
  from Cons.IH [OF this] obtain ps' staged' where
    "stage_params ps1 names st1 = Inr (ps', staged')" "dom ps' = dom ps1" by blast
  with step d have "stage_params ps (n # names) staged = Inr (ps', staged') \<and> dom ps' = dom ps"
    by simp
  then show ?case by blast
qed

lemma dom_clear_delay: "dom (clear_delay ps names) = dom ps"
proof (induction names arbitrary: ps)
  case Nil
  then show ?case by simp
next
  case (Cons n names)
  show ?case
  proof (cases "ps n")
    case None
    with Cons.IH show ?thesis by simp
  next
    case (Some q)
    define ps1 where "ps1 = ps(n \<mapsto> q\<lparr>delay_asteval := False\<rparr>)"
    have d: "dom ps1 = dom ps" using Some by (auto simp: ps1_def)
    have "clear_delay ps (n # names) = clear_delay ps1 names"
      using Some by (simp add: ps1_def)
    with Cons.IH [of ps1] d show ?thesis by simp
  qed
qed

lemma cluster_label_Inl:
  "cluster_label f i vc = Inl e \<Longrightarrow> vc = [] \<and> e = KeyError ''pop from an empty set''"
  by (cases vc) simp_all

lemma cluster_label_Inr: "vc \<noteq> [] \<Longrightarrow> \<exists>l. cluster_label f i vc = Inr l"
  by (cases vc) simp_all

lemma label_clusters_Inl:
  "label_clusters f i ps cl = Inl e \<Longrightarrow> \<exists>s. e = KeyError s"
proof (induction cl arbitrary: ps e)
  case Nil
  then show ?case by simp
next
  case (Cons c cl)
  obtain dc pc vc where c: "c = (dc, pc, vc)" by (cases c) auto
  show ?case
  proof (cases "cluster_label f i vc")
    case (Inl e1)
    with Cons.prems c cluster_label_Inl [OF Inl] show ?thesis by auto
  next
    case l: (Inr lab)
    show ?thesis
    proof (cases "stage_params ps pc []")
      case (Inl e2)
      with Cons.prems c l stage_params_Inl [OF Inl] show ?thesis by auto
    next
      case (Inr st)
      obtain ps1 staged where st: "st = (ps1, staged)" by (cases st) auto
      show ?thesis
      proof (cases "label_clusters f i (clear_delay ps1 staged) cl")
        case (Inl e3)
        with Cons.prems c l Inr st Cons.IH [OF Inl] show ?thesis by auto
      next
        case r: (Inr res)
        with Cons.prems c l Inr st show ?thesis by (simp split: prod.splits)
      qed
    qed
  qed
qed

lemma label_clusters_Inr:
  "label_clusters f i ps cl = Inr (r, ps') \<Longrightarrow>
     map (fst \<circ> snd) r = map fst cl \<and> (\<forall>c\<in>set cl. snd (snd c) \<noteq> [])"
proof (induction cl arbitrary: ps r ps')
  case Nil
  then show ?case by simp
next
  case (Cons c cl)
  obtain dc pc vc where c: "c = (dc, pc, vc)" by (cases c) auto
  from Cons.prems c obtain lab where l: "cluster_label f i vc = Inr lab"
    by (cases "cluster_label f i vc") simp_all
  then have ne: "vc \<noteq> []" by (cases vc) simp_all
  from Cons.prems c l obtain ps1 staged where st: "stage_params ps pc [] = Inr (ps1, staged)"
    by (cases "stage_params ps pc []") auto
  from Cons.prems c l st obtain r' ps2 where
    r: "label_clusters f i (clear_delay ps1 staged) cl = Inr (r', ps2)"
    by (cases "label_clusters f i (clear_delay ps1 staged) cl") auto
  from Cons.prems c l st r have "r = (lab, dc, staged) # r'" by simp
  with Cons.IH [OF r] c ne show ?case by simp
qed

lemma label_clusters_total:
  "\<forall>c\<in>set cl. set (fst (snd c)) \<subseteq> dom ps \<and> snd (snd c) \<noteq> [] \<Longrightarrow>
     \<exists>r ps'. label_clusters f i ps cl = Inr (r, ps')"
proof (induction cl arbitrary: ps)
  case Nil
  then show ?case by simp
next
  case (Cons c cl)
  obtain dc pc vc where c: "c = (dc, pc, vc)" by (cases c) auto
  from Cons.prems c have pc: "set pc \<subseteq> dom ps" and ne: "vc \<noteq> []" by simp_all
  from cluster_label_Inr [OF ne, where f = f and i = i] obtain lab where l: "cluster_label f i vc = Inr lab" by blast
  from stage_params_Inr [OF pc] obtain ps1 staged where
    st: "stage_params ps pc [] = Inr (ps1, staged)" and d: "dom ps1 = dom ps" by blast
  have "dom (clear_delay ps1 staged) = dom ps" using d by (simp add: dom_clear_delay)
  with Cons.prems have "\<forall>c\<in>set cl. set (fst (snd c)) \<subseteq> dom (clear_delay ps1 staged) \<and> snd (snd c) \<noteq> []"
    by simp
  from Cons.IH [OF this] obtain r' ps2 where
    "label_clusters f i (clear_delay ps1 staged) cl = Inr (r', ps2)" by blast
  with c l st show ?case by simp
qed

lemma label_clusters_empty:
  "\<forall>c\<in>set cl. set (fst (snd c)) \<subseteq> dom ps \<Longrightarrow> \<exists>c\<in>set cl. snd (snd c) = [] \<Longrightarrow>
     label_clusters f i ps cl = Inl (KeyError ''pop from an empty set'')"
proof (induction cl arbitrary: ps)
  case Nil
  then show ?case by simp
next
  case (Cons c cl)
  obtain dc pc vc where c: "c = (dc, pc, vc)" by (cases c) auto
  show ?case
  proof (cases "vc = []")
    case True
    with c show ?thesis by simp
  next
    case False
    from cluster_label_Inr [OF False, where f = f and i = i] obtain lab where l: "cluster_label f i vc = Inr lab" by blast
    from Cons.prems(1) c have pc: "set pc \<subseteq> dom ps" by simp
    from stage_params_Inr [OF pc] obtain ps1 staged where
      st: "stage_params ps pc [] = Inr (ps1, staged)" and d: "dom ps1 = dom ps" by blast
    have "dom (clear_delay ps1 staged) = dom ps" using d by (simp add: dom_clear_delay)
    with Cons.prems(1) have a: "\<forall>c\<in>set cl. set (fst (snd c)) \<subseteq> dom (clear_delay ps1 staged)"
      by simp
    from Cons.prems(2) c False have b: "\<exists>c\<in>set cl. snd (snd c) = []" by simp
    from Cons.IH [OF a b] c l st show ?thesis by simp
  qed
qed

lemma shares_free_sym: "shares_free ps keys a b \<Longrightarrow> shares_free ps keys b a"
  unfolding shares_free_def by blast

lemma linked_refl: "linked ps keys all x x"
  by (simp add: linked_def)

lemma linked_trans: "linked ps keys all x y \<Longrightarrow> linked ps keys all y z \<Longrightarrow> linked ps keys all x z"
  unfolding linked_def by (rule rtrancl_trans)

lemma linked_step:
  "a \<in> set all \<Longrightarrow> b \<in> set all \<Longrightarrow> shares_free ps keys a b \<Longrightarrow> linked ps keys all a b"
  unfolding linked_def share_rel_def by (rule r_into_rtrancl) simp

lemma merge_chain:
  assumes ch: "chain_inv ps keys all (dc, pc, vc)"
    and vc: "set vc = (\<Union>q\<in>set dc. free_set ps keys q)"
    and vs: "set vs = free_set ps keys prof"
    and prof: "prof \<in> set all"
    and hit: "\<exists>name\<in>set vs. name \<in> set vc"
  shows "chain_inv ps keys all (dc @ [prof], pc', vc')"
proof -
  from ch have sub: "set dc \<subseteq> set all"
    and lk: "\<And>x y. x \<in> set dc \<Longrightarrow> y \<in> set dc \<Longrightarrow> linked ps keys all x y"
    by (simp_all add: chain_inv_def)
  from hit obtain name where nm: "name \<in> set vs" "name \<in> set vc" by blast
  from nm(2) vc obtain q where q: "q \<in> set dc" "name \<in> free_set ps keys q" by blast
  from nm(1) vs have "name \<in> free_set ps keys prof" by simp
  with q(2) have sh: "shares_free ps keys q prof"
    unfolding shares_free_def free_set_def by blast
  from q(1) sub have qa: "q \<in> set all" by blast
  have qp: "linked ps keys all q prof" by (rule linked_step [OF qa prof sh])
  have pq: "linked ps keys all prof q" by (rule linked_step [OF prof qa shares_free_sym [OF sh]])
  have "linked ps keys all x y" if "x \<in> set (dc @ [prof])" "y \<in> set (dc @ [prof])" for x y
  proof (cases "x = prof")
    case xp: True
    show ?thesis
    proof (cases "y = prof")
      case True
      with xp show ?thesis by (simp add: linked_refl)
    next
      case False
      with that(2) have "y \<in> set dc" by simp
      then have "linked ps keys all q y" by (rule lk [OF q(1)])
      with pq xp show ?thesis by (blast intro: linked_trans)
    qed
  next
    case xd: False
    with that(1) have x: "x \<in> set dc" by simp
    show ?thesis
    proof (cases "y = prof")
      case True
      from lk [OF x q(1)] qp True show ?thesis by (blast intro: linked_trans)
    next
      case False
      with that(2) have "y \<in> set dc" by simp
      with x show ?thesis by (rule lk)
    qed
  qed
  moreover have "set (dc @ [prof]) \<subseteq> set all" using sub prof by simp
  ultimately show ?thesis by (simp add: chain_inv_def)
qed

lemma add_profile_chain:
  assumes "\<forall>c\<in>set cl. cluster_inv ps keys c \<and> chain_inv ps keys all c"
    and "set vs = free_set ps keys prof" and "prof \<in> set all"
  shows "\<forall>c\<in>set (add_profile prof pn vs cl). chain_inv ps keys all c"
  using assms(1)
proof (induction cl)
  case Nil
  with assms(3) show ?case by (simp add: chain_inv_def linked_refl)
next
  case (Cons c cl)
  obtain dc pc vc where c: "c = (dc, pc, vc)" by (cases c) auto
  from Cons.prems c have ci: "cluster_inv ps keys (dc, pc, vc)" and ch: "chain_inv ps keys all (dc, pc, vc)"
    by simp_all
  from ci have vc: "set vc = (\<Union>q\<in>set dc. free_set ps keys q)"
    unfolding cluster_inv_def by simp
  from Cons.prems have rest: "\<forall>c\<in>set cl. cluster_inv ps keys c \<and> chain_inv ps keys all c" by simp
  show ?case
  proof (cases "\<exists>name\<in>set vs. name \<in> set vc")
    case True
    have m: "chain_inv ps keys all (dc @ [prof], pc @ pn, vc @ filter (\<lambda>name. name \<notin> set vc) vs)"
      by (rule merge_chain [OF ch vc assms(2,3) True])
    have "add_profile prof pn vs (c # cl) =
        (dc @ [prof], pc @ pn, vc @ filter (\<lambda>name. name \<notin> set vc) vs) # cl"
      using True c by simp
    with m rest show ?thesis by simp
  next
    case False
    then have "add_profile prof pn vs (c # cl) = c # add_profile prof pn vs cl"
      using c by simp
    with Cons.IH [OF rest] Cons.prems show ?thesis by simp
  qed
qed

lemma build_clusters_chain:
  "build_clusters keys ps data cl = Inr cl' \<Longrightarrow> set data \<subseteq> set all \<Longrightarrow>
   \<forall>c\<in>set cl. cluster_inv ps keys c \<and> chain_inv ps keys all c \<Longrightarrow>
   \<forall>c\<in>set cl'. chain_inv ps keys all c"
proof (induction data arbitrary: cl)
  case Nil
  then show ?case by simp
next
  case (Cons q data)
  from Cons.prems(1) obtain vs where vs: "vary_names ps (keys q) = Inr vs"
    and b: "build_clusters keys ps data (add_profile q (keys q) vs cl) = Inr cl'"
    by (cases "vary_names ps (keys q)") simp_all
  from vary_names_Inr [OF vs] have k: "set (keys q) \<subseteq> dom ps" "set vs = free_set ps keys q"
    by (simp_all add: free_set_def)
  from Cons.prems(2) have qa: "q \<in> set all" and sub: "set data \<subseteq> set all" by simp_all
  from Cons.prems(3) have ci: "\<forall>c\<in>set cl. cluster_inv ps keys c" by simp
  have 1: "\<forall>c\<in>set (add_profile q (keys q) vs cl). cluster_inv ps keys c"
    by (rule add_profile_inv [OF ci k])
  have 2: "\<forall>c\<in>set (add_profile q (keys q) vs cl). chain_inv ps keys all c"
    by (rule add_profile_chain [OF Cons.prems(3) k(2) qa])
  from 1 2 have "\<forall>c\<in>set (add_profile q (keys q) vs cl). cluster_inv ps keys c \<and> chain_inv ps keys all c"
    by simp
  with b sub show ?case by (rule Cons.IH)
qed

lemma fic_Inl:
  assumes "find_independent_clusters f i keys data ps = Inl e"
  shows "\<exists>s. e = KeyError s"
proof (cases "build_clusters keys ps data []")
  case (Inl e1)
  with assms have "e = e1" by (simp add: find_independent_clusters_def)
  with build_clusters_Inl [OF Inl] show ?thesis by simp
next
  case b: (Inr cl)
  show ?thesis
  proof (cases "label_clusters f i ps cl")
    case (Inl e2)
    with assms b have "e = e2" by (simp add: find_independent_clusters_def)
    with label_clusters_Inl [OF Inl] show ?thesis by simp
  next
    case (Inr res)
    with assms b show ?thesis
      by (simp add: find_independent_clusters_def split: prod.splits)
  qed
qed

lemma fic_InrD:
  assumes "find_independent_clusters f i keys data ps = Inr (r, ps')"
  shows "\<exists>cl. build_clusters keys ps data [] = Inr cl \<and> (\<forall>c\<in>set cl. snd (snd c) \<noteq> [])
           \<and> set (map (fst \<circ> snd) r) = set (map fst cl) \<and> length r = length cl"
proof -
  from assms obtain cl where b: "build_clusters keys ps data [] = Inr cl"
    by (cases "build_clusters keys ps data []") (simp_all add: find_independent_clusters_def)
  from assms b obtain cl1 ps1 where l: "label_clusters f i ps cl = Inr (cl1, ps1)"
    by (cases "label_clusters f i ps cl") (auto simp: find_independent_clusters_def)
  define g :: "'a \<times> 'b list \<times> string list \<Rightarrow> 'a \<times> 'b list \<times> (string \<times> param) list"
    where "g = (\<lambda>(name_cluster, data_cluster, staged).
                  (name_cluster, data_cluster, params_items ps1 staged))"
  from assms b l have r: "r = sort_key fst (map g cl1)"
    by (auto simp: find_independent_clusters_def g_def)
  have gd: "(fst \<circ> snd) \<circ> g = fst \<circ> snd" by (auto simp: g_def)
  from label_clusters_Inr [OF l] have m: "map (fst \<circ> snd) cl1 = map fst cl"
    and ne: "\<forall>c\<in>set cl. snd (snd c) \<noteq> []" by simp_all
  have "set (map (fst \<circ> snd) r) = (fst \<circ> snd) ` g ` set cl1" by (simp add: r)
  also have "\<dots> = set (map ((fst \<circ> snd) \<circ> g) cl1)" by (simp add: image_comp)
  also have "\<dots> = set (map fst cl)" by (simp only: gd m)
  finally have s: "set (map (fst \<circ> snd) r) = set (map fst cl)" .
  have "length r = length cl1" by (simp add: r)
  also have "\<dots> = length cl" using m by (metis length_map)
  finally have "length r = length cl" .
  with b ne s show ?thesis by blast
qed

lemma build_clusters_start_inv:
  assumes "build_clusters keys ps data [] = Inr cl"
  shows "\<forall>c\<in>set cl. cluster_inv ps keys c"
    and "\<forall>c\<in>set cl. chain_inv ps keys data c"
    and "(\<Union>c\<in>set cl. set (fst c)) = set data"
proof -
  show "\<forall>c\<in>set cl. cluster_inv ps keys c"
    by (rule build_clusters_inv [OF assms]) simp
  show "\<forall>c\<in>set cl. chain_inv ps keys data c"
    by (rule build_clusters_chain [OF assms]) simp_all
  show "(\<Union>c\<in>set cl. set (fst c)) = set data"
    using build_clusters_members [OF assms] by simp
qed

lemma free_set_empty_iff:
  "free_set ps keys q = {} \<longleftrightarrow> (\<forall>name\<in>set (keys q). \<not> is_free ps name)"
  by (auto simp: free_set_def)

lemma add_profile_nonempty:
  "\<forall>c\<in>set cl. fst c \<noteq> [] \<Longrightarrow> \<forall>c\<in>set (add_profile prof pn vs cl). fst c \<noteq> []"
proof (induction cl)
  case Nil
  then show ?case by simp
next
  case (Cons c cl)
  obtain dc pc vc where c: "c = (dc, pc, vc)" by (cases c) auto
  show ?case
  proof (cases "\<exists>name\<in>set vs. name \<in> set vc")
    case True
    with c Cons.prems show ?thesis by simp
  next
    case False
    with c Cons show ?thesis by simp
  qed
qed

lemma build_clusters_nonempty:
  "build_clusters keys ps data cl = Inr cl' \<Longrightarrow> \<forall>c\<in>set cl. fst c \<noteq> [] \<Longrightarrow>
     \<forall>c\<in>set cl'. fst c \<noteq> []"
proof (induction data arbitrary: cl)
  case Nil
  then show ?case by simp
next
  case (Cons q data)
  from Cons.prems(1) obtain vs where
    b: "build_clusters keys ps data (add_profile q (keys q) vs cl) = Inr cl'"
    by (cases "vary_names ps (keys q)") simp_all
  from b add_profile_nonempty [OF Cons.prems(2)] show ?case by (rule Cons.IH)
qed

lemma fic_total:
  assumes "\<forall>q\<in>set data. set (keys q) \<subseteq> dom ps \<and> (\<exists>name\<in>set (keys q). is_free ps name)"
  shows "\<exists>r. find_independent_clusters f i keys data ps = Inr r"
proof -
  from assms have "\<forall>q\<in>set data. set (keys q) \<subseteq> dom ps" by blast
  from build_clusters_total [OF this] obtain cl where b: "build_clusters keys ps data [] = Inr cl"
    by blast
  note inv = build_clusters_start_inv [OF b]
  have ne: "\<forall>c\<in>set cl. fst c \<noteq> []"
    by (rule build_clusters_nonempty [OF b]) simp
  have "set (fst (snd c)) \<subseteq> dom ps \<and> snd (snd c) \<noteq> []" if c: "c \<in> set cl" for c
  proof -
    obtain dc pc vc where cc: "c = (dc, pc, vc)" by (cases c) auto
    from inv(1) c cc have "cluster_inv ps keys (dc, pc, vc)" by blast
    then have ci: "set pc \<subseteq> dom ps" "set vc = (\<Union>q\<in>set dc. free_set ps keys q)"
      unfolding cluster_inv_def by simp_all
    from ne c cc have "dc \<noteq> []" by fastforce
    then obtain q where q: "q \<in> set dc" by (cases dc) auto
    from inv(2) c cc have "set dc \<subseteq> set data" by (fastforce simp: chain_inv_def)
    with q have "q \<in> set data" by blast
    with assms have "free_set ps keys q \<noteq> {}" by (simp add: free_set_empty_iff)
    with q ci(2) have "set vc \<noteq> {}" by auto
    with ci(1) cc show ?thesis by simp
  qed
  then have "\<forall>c\<in>set cl. set (fst (snd c)) \<subseteq> dom ps \<and> snd (snd c) \<noteq> []" by blast
  from label_clusters_total [OF this, where f = f and i = i] obtain r1 ps1 where
    "label_clusters f i ps cl = Inr (r1, ps1)" by blast
  with b show ?thesis by (simp add: find_independent_clusters_def)
qed

lemma fic_empty_free:
  assumes "prof \<in> set data" and "\<forall>name\<in>set (keys prof). \<not> is_free ps name"
    and b: "build_clusters keys ps data [] = Inr cl"
  shows "find_independent_clusters f i keys data ps = Inl (KeyError ''pop from an empty set'')"
proof -
  note inv = build_clusters_start_inv [OF b]
  from assms(1) inv(3) obtain c where c: "c \<in> set cl" "prof \<in> set (fst c)" by blast
  obtain dc pc vc where cc: "c = (dc, pc, vc)" by (cases c) auto
  from inv(1) c(1) cc have "cluster_inv ps keys (dc, pc, vc)" by blast
  then have e: "(\<exists>q\<in>set dc. free_set ps keys q = {}) \<longrightarrow> vc = []"
    unfolding cluster_inv_def by simp
  from assms(2) have "free_set ps keys prof = {}" by (simp add: free_set_empty_iff)
  with c(2) cc e have "vc = []" by auto
  with c(1) cc have ex: "\<exists>c\<in>set cl. snd (snd c) = []" by force
  have "set (fst (snd c)) \<subseteq> dom ps" if "c \<in> set cl" for c
  proof -
    obtain dc pc vc where cc: "c = (dc, pc, vc)" by (cases c) auto
    from inv(1) that cc have "cluster_inv ps keys (dc, pc, vc)" by blast
    then show ?thesis unfolding cluster_inv_def using cc by simp
  qed
  then have "\<forall>c\<in>set cl. set (fst (snd c)) \<subseteq> dom ps" by blast
  from label_clusters_empty [OF this ex, where f = f and i = i] b show ?thesis
    by (simp add: find_independent_clusters_def)
qed

text \<open>
  C9. If a profile of the dataset has no varying, expression-free parameter name,
  \<open>find_independent_clusters\<close> fails with a \<open>KeyError\<close>; when every name resolves in
  \<open>params\<close> it is the \<open>KeyError\<close> of \<open>pop()\<close> on the empty set of that profile's
  cluster. The partitioner returns exactly when every name resolves and every profile
  references at least one free parameter.
\<close>

theorem find_independent_clusters_no_free_parameter:
  "(prof \<in> set data \<and> (\<forall>name\<in>set (keys prof). \<not> is_free ps name) \<longrightarrow>
      (\<exists>s. find_independent_clusters from_full_name intersection keys data ps = Inl (KeyError s))
    \<and> ((\<forall>q\<in>set data. set (keys q) \<subseteq> dom ps) \<longrightarrow>
         find_independent_clusters from_full_name intersection keys data ps
           = Inl (KeyError ''pop from an empty set'')))
   \<and> ((\<exists>r. find_independent_clusters from_full_name intersection keys data ps = Inr r) \<longleftrightarrow>
        (\<forall>q\<in>set data. set (keys q) \<subseteq> dom ps \<and> (\<exists>name\<in>set (keys q). is_free ps name)))"
proof (intro conjI impI iffI)
  assume h: "prof \<in> set data \<and> (\<forall>name\<in>set (keys prof). \<not> is_free ps name)"
  show "\<exists>s. find_independent_clusters from_full_name intersection keys data ps = Inl (KeyError s)"
  proof (cases "build_clusters keys ps data []")
    case (Inl e)
    then have "find_independent_clusters from_full_name intersection keys data ps = Inl e"
      by (simp add: find_independent_clusters_def)
    with build_clusters_Inl [OF Inl] show ?thesis by auto
  next
    case (Inr cl)
    from h have h1: "prof \<in> set data" and h2: "\<forall>name\<in>set (keys prof). \<not> is_free ps name"
      by simp_all
    from fic_empty_free [OF h1 h2 Inr, where f = from_full_name and i = intersection]
    show ?thesis by blast
  qed
next
  assume h: "prof \<in> set data \<and> (\<forall>name\<in>set (keys prof). \<not> is_free ps name)"
    and r: "\<forall>q\<in>set data. set (keys q) \<subseteq> dom ps"
  from build_clusters_total [OF r] obtain cl where b: "build_clusters keys ps data [] = Inr cl"
    by blast
  from h have h1: "prof \<in> set data" and h2: "\<forall>name\<in>set (keys prof). \<not> is_free ps name"
    by simp_all
  show "find_independent_clusters from_full_name intersection keys data ps
           = Inl (KeyError ''pop from an empty set'')"
    by (rule fic_empty_free [OF h1 h2 b])
next
  assume "\<exists>r. find_independent_clusters from_full_name intersection keys data ps = Inr r"
  then obtain r ps' where r: "find_independent_clusters from_full_name intersection keys data ps = Inr (r, ps')"
    by auto
  from fic_InrD [OF r] obtain cl where b: "build_clusters keys ps data [] = Inr cl" by blast
  show "\<forall>q\<in>set data. set (keys q) \<subseteq> dom ps \<and> (\<exists>name\<in>set (keys q). is_free ps name)"
  proof
    fix q assume q: "q \<in> set data"
    from build_clusters_resolved [OF b] q have 1: "set (keys q) \<subseteq> dom ps" by blast
    have 2: "\<exists>name\<in>set (keys q). is_free ps name"
    proof (rule ccontr)
      assume "\<not> (\<exists>name\<in>set (keys q). is_free ps name)"
      then have "\<forall>name\<in>set (keys q). \<not> is_free ps name" by blast
      from fic_empty_free [OF q this b, where f = from_full_name and i = intersection] r
      show False by simp
    qed
    from 1 2 show "set (keys q) \<subseteq> dom ps \<and> (\<exists>name\<in>set (keys q). is_free ps name)" ..
  qed
next
  assume "\<forall>q\<in>set data. set (keys q) \<subseteq> dom ps \<and> (\<exists>name\<in>set (keys q). is_free ps name)"
  then show "\<exists>r. find_independent_clusters from_full_name intersection keys data ps = Inr r"
    by (rule fic_total)
qed

lemma shares_free_vary:
  assumes "vary_names ps (keys a) = Inr va" "vary_names ps (keys b) = Inr vb"
  shows "(\<exists>name\<in>set vb. name \<in> set va) \<longleftrightarrow> shares_free ps keys a b"
proof -
  from vary_names_Inr [OF assms(1)] have a: "set va = {n \<in> set (keys a). is_free ps n}" by simp
  from vary_names_Inr [OF assms(2)] have b: "set vb = {n \<in> set (keys b). is_free ps n}" by simp
  show ?thesis unfolding shares_free_def a b by blast
qed

lemma build_clusters_pair:
  assumes "build_clusters keys ps [a, b] [] = Inr cl"
  shows "map fst cl = (if shares_free ps keys a b then [[a, b]] else [[a], [b]])"
proof -
  from assms obtain va where va: "vary_names ps (keys a) = Inr va"
    by (cases "vary_names ps (keys a)") simp_all
  from assms va obtain vb where vb: "vary_names ps (keys b) = Inr vb"
    by (cases "vary_names ps (keys b)") simp_all
  from assms va vb have cl: "cl = add_profile b (keys b) vb [([a], keys a, va)]" by simp
  show ?thesis
    unfolding cl shares_free_vary [where keys = keys and a = a and b = b, OF va vb, symmetric] by simp
qed

lemma singleton_list: "length xs = 1 \<Longrightarrow> set xs = {z} \<Longrightarrow> xs = [z]"
  by (cases xs) auto

text \<open>
  C7 (amended). When the partitioner returns, its clusters cover the dataset; any two
  profiles of one cluster are linked by a chain of profiles of the dataset in which each
  shares a free parameter with the next (fixed or expression-derived parameters never
  join profiles); and for a dataset of two profiles the two are in one cluster if they
  share a free parameter and in two distinct clusters otherwise.
\<close>

theorem find_independent_clusters_linked:
  assumes "find_independent_clusters from_full_name intersection keys data ps = Inr (r, ps')"
  shows "(\<Union>c\<in>set r. set (fst (snd c))) = set data
       \<and> (\<forall>c\<in>set r. \<forall>x\<in>set (fst (snd c)). \<forall>y\<in>set (fst (snd c)). linked ps keys data x y)
       \<and> (\<forall>a b. data = [a, b] \<longrightarrow>
            (if shares_free ps keys a b then map (fst \<circ> snd) r = [[a, b]]
             else length r = 2 \<and> set (map (fst \<circ> snd) r) = {[a], [b]}))"
proof -
  from fic_InrD [OF assms] obtain cl where b: "build_clusters keys ps data [] = Inr cl"
    and s: "set (map (fst \<circ> snd) r) = set (map fst cl)" and l: "length r = length cl"
    by blast
  note inv = build_clusters_start_inv [OF b]
  have s': "(\<lambda>c. fst (snd c)) ` set r = fst ` set cl" using s by (simp add: comp_def)
  have "(\<Union>c\<in>set r. set (fst (snd c))) = (\<Union>d\<in>(\<lambda>c. fst (snd c)) ` set r. set d)" by blast
  also have "\<dots> = (\<Union>d\<in>fst ` set cl. set d)" by (simp only: s')
  also have "\<dots> = set data" using inv(3) by simp
  finally have 1: "(\<Union>c\<in>set r. set (fst (snd c))) = set data" .
  have 2: "\<forall>c\<in>set r. \<forall>x\<in>set (fst (snd c)). \<forall>y\<in>set (fst (snd c)). linked ps keys data x y"
  proof (intro ballI)
    fix c x y assume c: "c \<in> set r" and x: "x \<in> set (fst (snd c))" and y: "y \<in> set (fst (snd c))"
    from c have "fst (snd c) \<in> (\<lambda>c. fst (snd c)) ` set r" by blast
    with s' obtain c' where c': "c' \<in> set cl" "fst c' = fst (snd c)" by auto
    from inv(2) c'(1) have "chain_inv ps keys data c'" by blast
    with c'(2) x y show "linked ps keys data x y" by (simp add: chain_inv_def)
  qed
  have 3: "\<forall>a b. data = [a, b] \<longrightarrow>
            (if shares_free ps keys a b then map (fst \<circ> snd) r = [[a, b]]
             else length r = 2 \<and> set (map (fst \<circ> snd) r) = {[a], [b]})"
  proof (intro allI impI)
    fix a b assume d: "data = [a, b]"
    from b d have m: "map fst cl = (if shares_free ps keys a b then [[a, b]] else [[a], [b]])"
      by (simp add: build_clusters_pair)
    show "if shares_free ps keys a b then map (fst \<circ> snd) r = [[a, b]]
             else length r = 2 \<and> set (map (fst \<circ> snd) r) = {[a], [b]}"
    proof (cases "shares_free ps keys a b")
      case True
      with m have mm: "map fst cl = [[a, b]]" by simp
      then have "length cl = 1" by (metis length_map length_Cons list.size(3) One_nat_def)
      with l have "length (map (fst \<circ> snd) r) = 1" by simp
      moreover from s mm have "set (map (fst \<circ> snd) r) = {[a, b]}" by simp
      ultimately have "map (fst \<circ> snd) r = [[a, b]]" by (rule singleton_list)
      with True show ?thesis by simp
    next
      case False
      with m have mm: "map fst cl = [[a], [b]]" by simp
      then have "length (map fst cl) = 2" by simp
      then have "length cl = 2" by simp
      with l s mm False show ?thesis by simp
    qed
  qed
  from 1 2 3 show ?thesis by blast
qed

text \<open>
  C7 as stated fails both ways for three profiles. In the order \<open>{a, c}\<close>, \<open>{b, c}\<close>,
  \<open>{a, b}\<close> the last profile joins the first cluster only, although it shares the free
  \<open>b\<close> with the second. In the order \<open>{a, c}\<close>, \<open>{a, b}\<close>, \<open>{b, c}\<close> the first and the
  last profile, whose only common parameter \<open>c\<close> is fixed, are in one cluster.
\<close>

theorem find_independent_clusters_first_match_counterexample:
  "shares_free params_ab prof_keys prof_bc prof_ab
   \<and> map_sum id (\<lambda>res. map (fst \<circ> snd) (fst res))
        (find_independent_clusters label_len label_min prof_keys [prof_ac, prof_bc, prof_ab] params_ab)
      = Inr [[prof_ac, prof_ab], [prof_bc]]
   \<and> \<not> shares_free params_ab prof_keys prof_ac prof_bc
   \<and> map_sum id (\<lambda>res. map (fst \<circ> snd) (fst res))
        (find_independent_clusters label_len label_min prof_keys [prof_ac, prof_ab, prof_bc] params_ab)
      = Inr [[prof_ac, prof_ab, prof_bc]]"
  by (simp add: find_independent_clusters_def shares_free_def is_free_def params_ab_def
      free_param_def fixed_param_def prof_keys_def prof_ac_def prof_bc_def prof_ab_def
      label_len_def label_min_def params_get_def params_items_def)

theorem find_independent_clusters_no_free_parameter_witness:
  "prof_c \<in> set [prof_ac, prof_c] \<and> \<not> is_free params_ab ''c''
   \<and> find_independent_clusters label_len label_min prof_keys [prof_ac, prof_c] params_ab
       = Inl (KeyError ''pop from an empty set'')
   \<and> (\<exists>r. find_independent_clusters label_len label_min prof_keys [prof_ac, prof_ab] params_ab = Inr r)"
proof -
  have 1: "prof_c \<in> set [prof_ac, prof_c]" by simp
  have 2: "\<not> is_free params_ab ''c''"
    by (simp add: is_free_def params_ab_def fixed_param_def)
  have 3: "\<forall>name\<in>set (prof_keys prof_c). \<not> is_free params_ab name"
    using 2 by (simp add: prof_keys_def prof_c_def)
  have 4: "\<forall>q\<in>set [prof_ac, prof_c]. set (prof_keys q) \<subseteq> dom params_ab"
    by (simp add: prof_keys_def prof_c_def prof_ac_def params_ab_def)
  have 5: "\<forall>q\<in>set [prof_ac, prof_ab]. set (prof_keys q) \<subseteq> dom params_ab
             \<and> (\<exists>name\<in>set (prof_keys q). is_free params_ab name)"
    by (simp add: prof_keys_def prof_ab_def prof_ac_def params_ab_def is_free_def free_param_def)
  from find_independent_clusters_no_free_parameter
         [of prof_c "[prof_ac, prof_c]" prof_keys params_ab label_len label_min] 1 3 4
  have a: "find_independent_clusters label_len label_min prof_keys [prof_ac, prof_c] params_ab
       = Inl (KeyError ''pop from an empty set'')" by blast
  from find_independent_clusters_no_free_parameter
         [of prof_c "[prof_ac, prof_ab]" prof_keys params_ab label_len label_min] 5
  have b: "\<exists>r. find_independent_clusters label_len label_min prof_keys [prof_ac, prof_ab] params_ab = Inr r"
    by blast
  from 1 2 a b show ?thesis by blast
qed

theorem find_independent_clusters_linked_witness:
  "shares_free params_ab prof_keys prof_ac prof_ab
   \<and> (\<exists>r ps'. find_independent_clusters label_len label_min prof_keys [prof_ac, prof_ab] params_ab
                = Inr (r, ps')
        \<and> map (fst \<circ> snd) r = [[prof_ac, prof_ab]]
        \<and> linked params_ab prof_keys [prof_ac, prof_ab] prof_ac prof_ab)"
proof -
  have sh: "shares_free params_ab prof_keys prof_ac prof_ab"
    by (simp add: shares_free_def is_free_def params_ab_def free_param_def prof_keys_def
        prof_ac_def prof_ab_def)
  have v: "map_sum id (\<lambda>res. map (fst \<circ> snd) (fst res))
        (find_independent_clusters label_len label_min prof_keys [prof_ac, prof_ab] params_ab)
      = Inr [[prof_ac, prof_ab]]"
    by (simp add: find_independent_clusters_def params_ab_def
      free_param_def fixed_param_def prof_keys_def prof_ac_def prof_ab_def
      label_len_def label_min_def params_get_def params_items_def)
  then obtain r ps' where
    h: "find_independent_clusters label_len label_min prof_keys [prof_ac, prof_ab] params_ab = Inr (r, ps')"
    by (cases "find_independent_clusters label_len label_min prof_keys [prof_ac, prof_ab] params_ab") auto
  note t = find_independent_clusters_linked [OF h]
  from t sh have m: "map (fst \<circ> snd) r = [[prof_ac, prof_ab]]" by simp
  then obtain c where c: "c \<in> set r" "fst (snd c) = [prof_ac, prof_ab]" by auto
  with t have lk: "linked params_ab prof_keys [prof_ac, prof_ab] prof_ac prof_ab" by simp
  from h m lk have "find_independent_clusters label_len label_min prof_keys [prof_ac, prof_ab] params_ab
                = Inr (r, ps')
        \<and> map (fst \<circ> snd) r = [[prof_ac, prof_ab]]
        \<and> linked params_ab prof_keys [prof_ac, prof_ab] prof_ac prof_ab" by (intro conjI)
  then have "\<exists>r ps'. find_independent_clusters label_len label_min prof_keys [prof_ac, prof_ab] params_ab
                = Inr (r, ps')
        \<and> map (fst \<circ> snd) r = [[prof_ac, prof_ab]]
        \<and> linked params_ab prof_keys [prof_ac, prof_ab] prof_ac prof_ab" by (intro exI)
  with sh show ?thesis by (rule conjI)
qed

section \<open>Properties of the observable and its caches\<close>

lemma t_cp_of_Inr: "n \<noteq> 0 \<Longrightarrow> t_cp_of t2 n w = Inr (t2 / (4 * real_of_int n) - w)"
  by (simp add: t_cp_of_def)

lemma t_cp_of_zero: "t_cp_of t2 0 w = Inl ZeroDivisionError"
  by (simp add: t_cp_of_def)

lemma observable_of_total: "\<exists>v. observable_of L G lp a = Inr v"
proof (cases "ncyc a = 0")
  case True
  then show ?thesis
    by (simp add: observable_of_def Let_def split: prod.splits)
next
  case False
  then show ?thesis
    by (simp add: observable_of_def mag_train_y_def mag_train_n_def t_cp_of_Inr Let_def
        split: prod.splits)
qed

lemma inner_single:
  assumes "length xs \<le> 1" "map_of xs k = Some v"
  shows "xs = [(k, v)]"
proof (cases xs)
  case Nil
  with assms(2) show ?thesis by simp
next
  case (Cons x ys)
  with assms(1) have "ys = []" by simp
  with Cons assms(2) show ?thesis by (cases x) (simp split: if_splits)
qed

lemma make_propagators_coherent:
  assumes "caches_ok L G st"
  shows "fst (make_propagators L G st key) = make_propagators_body L G key"
    and "caches_ok L G (snd (make_propagators L G st key))"
proof -
  from assms have o: "\<forall>(a, v)\<in>set (outer st). observable_pure L G a = Inr v"
    and i: "\<forall>(k, lp)\<in>set (inner st). make_propagators_body L G k = Inr lp"
    and l: "length (inner st) \<le> 1"
    by (simp_all add: caches_ok_def)
  show "fst (make_propagators L G st key) = make_propagators_body L G key"
  proof (cases "map_of (inner st) key")
    case None
    then show ?thesis by (simp add: make_propagators_def split: sum.splits)
  next
    case (Some lp)
    then have "(key, lp) \<in> set (inner st)" by (rule map_of_SomeD)
    with i have "make_propagators_body L G key = Inr lp" by blast
    with Some show ?thesis by (simp add: make_propagators_def)
  qed
  show "caches_ok L G (snd (make_propagators L G st key))"
  proof (cases "map_of (inner st) key")
    case None
    show ?thesis
    proof (cases "make_propagators_body L G key")
      case (Inl e)
      with None assms show ?thesis by (simp add: make_propagators_def)
    next
      case (Inr lp)
      with None have "snd (make_propagators L G st key)
          = st\<lparr> inner := [(key, lp)], n_make := n_make st + 1 \<rparr>"
        by (simp add: make_propagators_def lru_miss_def)
      with o Inr show ?thesis by (simp add: caches_ok_def)
    qed
  next
    case (Some lp)
    from inner_single [OF l Some] have eq: "inner st = [(key, lp)]" .
    with Some have "snd (make_propagators L G st key) = st\<lparr> inner := [(key, lp)] \<rparr>"
      by (simp add: make_propagators_def lru_hit_def)
    with o i eq show ?thesis by (simp add: caches_ok_def)
  qed
qed

lemma make_propagators_outer:
  "outer (snd (make_propagators L G st key)) = outer st"
  by (simp add: make_propagators_def split: option.splits sum.splits)

lemma calc_observable_cached_coherent:
  assumes "caches_ok L G st"
  shows "fst (calc_observable_cached L G st a) = observable_pure L G a"
    and "caches_ok L G (snd (calc_observable_cached L G st a))"
proof -
  from assms have o: "\<forall>(a, v)\<in>set (outer st). observable_pure L G a = Inr v"
    and i: "\<forall>(k, lp)\<in>set (inner st). make_propagators_body L G k = Inr lp"
    and l: "length (inner st) \<le> 1"
    by (simp_all add: caches_ok_def)
  obtain r st1 where m: "make_propagators L G st (key_of G a) = (r, st1)"
    by (cases "make_propagators L G st (key_of G a)") auto
  from make_propagators_coherent [OF assms, of "key_of G a"] m
  have r: "r = make_propagators_body L G (key_of G a)" and ok1: "caches_ok L G st1" by simp_all
  from make_propagators_outer [of L G st "key_of G a"] m have o1: "outer st1 = outer st" by simp
  show "fst (calc_observable_cached L G st a) = observable_pure L G a"
  proof (cases "map_of (outer st) a")
    case (Some v)
    then have "(a, v) \<in> set (outer st)" by (rule map_of_SomeD)
    with o have "observable_pure L G a = Inr v" by blast
    with Some show ?thesis by (simp add: calc_observable_cached_def)
  next
    case None
    show ?thesis
    proof (cases "make_propagators_body L G (key_of G a)")
      case (Inl e)
      with None m r show ?thesis
        by (simp add: calc_observable_cached_def observable_pure_def)
    next
      case (Inr lp)
      with None m r show ?thesis
        by (simp add: calc_observable_cached_def observable_pure_def split: sum.splits)
    qed
  qed
  show "caches_ok L G (snd (calc_observable_cached L G st a))"
  proof (cases "map_of (outer st) a")
    case (Some v)
    then have "(a, v) \<in> set (outer st)" by (rule map_of_SomeD)
    with o have pv: "observable_pure L G a = Inr v" by blast
    from Some have "snd (calc_observable_cached L G st a) = st\<lparr> outer := lru_hit a v (outer st) \<rparr>"
      by (simp add: calc_observable_cached_def)
    moreover have "\<forall>(a', v')\<in>set (lru_hit a v (outer st)). observable_pure L G a' = Inr v'"
      using o pv by (auto simp: lru_hit_def)
    ultimately show ?thesis using i l by (simp add: caches_ok_def)
  next
    case None
    show ?thesis
    proof (cases "make_propagators_body L G (key_of G a)")
      case (Inl e)
      with None m r ok1 show ?thesis by (simp add: calc_observable_cached_def)
    next
      case (Inr lp)
      from observable_of_total obtain v where v: "observable_of L G lp a = Inr v" by blast
      with Inr have pv: "observable_pure L G a = Inr v" by (simp add: observable_pure_def)
      from None m r Inr v have s: "snd (calc_observable_cached L G st a)
          = st1\<lparr> outer := lru_miss 100 a v (outer st1) \<rparr>"
        by (simp add: calc_observable_cached_def)
      have "set (lru_miss 100 a v (outer st1)) \<subseteq> insert (a, v) (set (outer st))"
        unfolding lru_miss_def o1 using set_take_subset [of 100 "(a, v) # outer st"] by simp
      with o pv have "\<forall>(a', v')\<in>set (lru_miss 100 a v (outer st1)). observable_pure L G a' = Inr v'"
        by blast
      with ok1 s show ?thesis by (simp add: caches_ok_def)
    qed
  qed
qed

lemma caches_ok_empty: "caches_ok L G empty_caches"
  by (simp add: caches_ok_def empty_caches_def)

lemma make_propagators_body_Inr:
  "g_pw G \<noteq> 0 \<Longrightarrow> \<exists>lp. make_propagators_body L G key = Inr lp"
  by (simp add: make_propagators_body_def Let_def split: prod.splits)

lemma make_propagators_inner:
  assumes "caches_ok L G st" "make_propagators_body L G key = Inr lp"
  shows "inner (snd (make_propagators L G st key)) = [(key, lp)]"
proof (cases "map_of (inner st) key")
  case None
  with assms(2) show ?thesis by (simp add: make_propagators_def lru_miss_def)
next
  case (Some lp')
  from assms(1) have l: "length (inner st) \<le> 1"
    and i: "\<forall>(k, lp)\<in>set (inner st). make_propagators_body L G k = Inr lp"
    by (simp_all add: caches_ok_def)
  from inner_single [OF l Some] have eq: "inner st = [(key, lp')]" .
  with i assms(2) have "lp' = lp" by simp
  with Some eq show ?thesis by (simp add: make_propagators_def lru_hit_def)
qed

lemma n_make_make_propagators:
  "n_make (snd (make_propagators L G s k)) =
     (if map_of (inner s) k = None \<and> (\<exists>lp. make_propagators_body L G k = Inr lp)
      then n_make s + 1 else n_make s)"
  by (cases "map_of (inner s) k"; cases "make_propagators_body L G k")
     (simp_all add: make_propagators_def)

lemma calc_observable_cached_miss:
  assumes "map_of (outer s) b = None"
  shows "inner (snd (calc_observable_cached L G s b)) = inner (snd (make_propagators L G s (key_of G b)))"
    and "n_make (snd (calc_observable_cached L G s b)) = n_make (snd (make_propagators L G s (key_of G b)))"
proof -
  obtain r s1 where m: "make_propagators L G s (key_of G b) = (r, s1)"
    by (cases "make_propagators L G s (key_of G b)") auto
  show "inner (snd (calc_observable_cached L G s b)) = inner (snd (make_propagators L G s (key_of G b)))"
    using assms m by (cases r) (simp_all add: calc_observable_cached_def split: sum.splits)
  show "n_make (snd (calc_observable_cached L G s b)) = n_make (snd (make_propagators L G s (key_of G b)))"
    using assms m by (cases r) (simp_all add: calc_observable_cached_def split: sum.splits)
qed

lemma calc_observable_cached_hit:
  assumes "map_of (outer s) b = Some v"
  shows "n_make (snd (calc_observable_cached L G s b)) = n_make s"
  using assms by (simp add: calc_observable_cached_def)

text \<open>
  C2 (amended). The cache of \<open>make_propagators\<close> has capacity 1 and its key is
  \<open>(pb, kex, dw * ppm_to_rads, r_nxy, dr_nxy, r_nz, (cs - carrier) * ppm_to_rads)\<close>: the
  exchange parameters and the offset of the chemical shift. After an evaluation that
  was not answered by the outer cache, the inner cache holds exactly the entry of that
  evaluation's key; a next evaluation that differs only in the cycle count does not
  run the body of \<open>make_propagators\<close> again, and a next evaluation with another offset,
  not answered by the outer cache, runs it once more.
\<close>

theorem propagator_cache_reuse:
  assumes "caches_ok L G st" and "g_pw G \<noteq> 0" and "map_of (outer st) a = None"
  shows "length (inner (snd (calc_observable_cached L G st a))) = 1
       \<and> map fst (inner (snd (calc_observable_cached L G st a))) = [key_of G a]
       \<and> n_make (snd (calc_observable_cached L G (snd (calc_observable_cached L G st a)) (a\<lparr>ncyc := n\<rparr>)))
           = n_make (snd (calc_observable_cached L G st a))
       \<and> (key_of G (a\<lparr>cs := c\<rparr>) \<noteq> key_of G a
            \<and> map_of (outer (snd (calc_observable_cached L G st a))) (a\<lparr>cs := c\<rparr>) = None \<longrightarrow>
          n_make (snd (calc_observable_cached L G (snd (calc_observable_cached L G st a)) (a\<lparr>cs := c\<rparr>)))
           = n_make (snd (calc_observable_cached L G st a)) + 1)"
proof -
  define st1 where "st1 = snd (calc_observable_cached L G st a)"
  from make_propagators_body_Inr [OF assms(2)] obtain lp where
    lp: "make_propagators_body L G (key_of G a) = Inr lp" by blast
  have in1: "inner st1 = [(key_of G a, lp)]"
    unfolding st1_def calc_observable_cached_miss(1) [OF assms(3)]
    by (rule make_propagators_inner [OF assms(1) lp])
  have ok1: "caches_ok L G st1"
    unfolding st1_def by (rule calc_observable_cached_coherent(2) [OF assms(1)])
  have k: "key_of G (a\<lparr>ncyc := n\<rparr>) = key_of G a" by (simp add: key_of_def)
  have 1: "length (inner st1) = 1" "map fst (inner st1) = [key_of G a]" using in1 by simp_all
  have 2: "n_make (snd (calc_observable_cached L G st1 (a\<lparr>ncyc := n\<rparr>))) = n_make st1"
  proof (cases "map_of (outer st1) (a\<lparr>ncyc := n\<rparr>)")
    case None
    show ?thesis
      unfolding calc_observable_cached_miss(2) [OF None] n_make_make_propagators k in1 by simp
  next
    case (Some v)
    then show ?thesis by (rule calc_observable_cached_hit)
  qed
  have 3: "n_make (snd (calc_observable_cached L G st1 (a\<lparr>cs := c\<rparr>))) = n_make st1 + 1"
    if d: "key_of G (a\<lparr>cs := c\<rparr>) \<noteq> key_of G a" and m: "map_of (outer st1) (a\<lparr>cs := c\<rparr>) = None"
  proof -
    from make_propagators_body_Inr [OF assms(2)] have
      "\<exists>lp. make_propagators_body L G (key_of G (a\<lparr>cs := c\<rparr>)) = Inr lp" .
    with d show ?thesis
      unfolding calc_observable_cached_miss(2) [OF m] n_make_make_propagators in1 by simp
  qed
  from 1 2 3 show ?thesis unfolding st1_def by blast
qed

text \<open>
  C3 (amended). \<open>calc_observable\<close> returns the value of \<open>_calc_observable\<close> multiplied
  by \<open>i0\<close>: it is that value for \<open>i0 = 1\<close>, and 0 when \<open>i0\<close> is not given (the default is
  0.0). In a coherent state the value of \<open>_calc_observable\<close> is the propagator-chain
  computation itself.
\<close>

theorem calc_observable_times_i0:
  "calc_observable L G st (Some i0) a
     = (map_sum id (\<lambda>v. i0 * v) (fst (calc_observable_cached L G st a)),
        snd (calc_observable_cached L G st a))
   \<and> calc_observable L G st (Some 1) a = calc_observable_cached L G st a
   \<and> calc_observable L G st None a
     = (map_sum id (\<lambda>v. 0) (fst (calc_observable_cached L G st a)),
        snd (calc_observable_cached L G st a))
   \<and> (caches_ok L G st \<longrightarrow>
        fst (calc_observable L G st (Some i0) a) = map_sum id (\<lambda>v. i0 * v) (observable_pure L G a))"
proof -
  obtain r st' where c: "calc_observable_cached L G st a = (r, st')"
    by (cases "calc_observable_cached L G st a") auto
  have 1: "calc_observable L G st (Some i0) a = (map_sum id (\<lambda>v. i0 * v) r, st')"
    using c by (cases r) (simp_all add: calc_observable_def)
  have 2: "calc_observable L G st (Some 1) a = (r, st')"
    using c by (cases r) (simp_all add: calc_observable_def)
  have 3: "calc_observable L G st None a = (map_sum id (\<lambda>v. 0) r, st')"
    using c by (cases r) (simp_all add: calc_observable_def)
  have 4: "fst (calc_observable L G st (Some i0) a) = map_sum id (\<lambda>v. i0 * v) (observable_pure L G a)"
    if "caches_ok L G st"
    using calc_observable_cached_coherent(1) [OF that, of a] 1 c by simp
  from 1 2 3 4 c show ?thesis by simp
qed

text \<open>
  C8. At cycle count 0 the observable is the reference-point formula of the branch that
  \<open>fh_flg\<close> selects, whatever the other arguments are; it does not depend on
  \<open>time_t2\<close>, which only the refocusing train reads. The formulas of the train are not
  defined at cycle count 0 (they divide by it), and they give the observable at every
  other cycle count.
\<close>

theorem reference_point_branch:
  assumes "caches_ok L G st" and "make_propagators_body L G (key_of G a) = Inr (l_free, ps)"
    and "ncyc a = 0"
  shows "fst (calc_observable_cached L G st a)
           = Inr (fst (get_nz L
               (if CHR ''y'' \<in> set (g_fh_flg G) then mag_ref_y L ps (compute_nz_eq L (pb a))
                else mag_ref_n L G ps (expm L (smul L l_free (g_pw G))) (compute_nz_eq L (pb a)))))
       \<and> observable_pure L (G\<lparr>g_time_t2 := t\<rparr>) a = observable_pure L G a
       \<and> mag_train_y L G l_free ps m 0 = Inl ZeroDivisionError
       \<and> mag_train_n L G l_free ps pf m 0 = Inl ZeroDivisionError
       \<and> (\<forall>b. ncyc b \<noteq> 0 \<longrightarrow>
            observable_of L G (l_free, ps) b
              = map_sum id (\<lambda>mag. fst (get_nz L mag))
                  (if CHR ''y'' \<in> set (g_fh_flg G)
                   then mag_train_y L G l_free ps (compute_nz_eq L (pb b)) (ncyc b)
                   else mag_train_n L G l_free ps (expm L (smul L l_free (g_pw G)))
                          (compute_nz_eq L (pb b)) (ncyc b)))"
proof -
  have 1: "fst (calc_observable_cached L G st a)
           = Inr (fst (get_nz L
               (if CHR ''y'' \<in> set (g_fh_flg G) then mag_ref_y L ps (compute_nz_eq L (pb a))
                else mag_ref_n L G ps (expm L (smul L l_free (g_pw G))) (compute_nz_eq L (pb a)))))"
    unfolding calc_observable_cached_coherent(1) [OF assms(1)] observable_pure_def assms(2)
    using assms(3) by (simp add: observable_of_def Let_def)
  have kk: "key_of (G\<lparr>g_time_t2 := t\<rparr>) a = key_of G a" by (simp add: key_of_def)
  have bb: "make_propagators_body L (G\<lparr>g_time_t2 := t\<rparr>) (key_of G a) = make_propagators_body L G (key_of G a)"
    by (simp add: make_propagators_body_def)
  have 2: "observable_pure L (G\<lparr>g_time_t2 := t\<rparr>) a = observable_pure L G a"
    unfolding observable_pure_def kk bb assms(2)
    using assms(3) by (simp add: observable_of_def Let_def mag_ref_n_def)
  have 3: "mag_train_y L G l_free ps m 0 = Inl ZeroDivisionError"
    by (simp add: mag_train_y_def t_cp_of_zero)
  have 4: "mag_train_n L G l_free ps pf m 0 = Inl ZeroDivisionError"
    by (simp add: mag_train_n_def t_cp_of_zero)
  have 5: "\<forall>b. ncyc b \<noteq> 0 \<longrightarrow>
            observable_of L G (l_free, ps) b
              = map_sum id (\<lambda>mag. fst (get_nz L mag))
                  (if CHR ''y'' \<in> set (g_fh_flg G)
                   then mag_train_y L G l_free ps (compute_nz_eq L (pb b)) (ncyc b)
                   else mag_train_n L G l_free ps (expm L (smul L l_free (g_pw G)))
                          (compute_nz_eq L (pb b)) (ncyc b))"
    by (auto simp: observable_of_def Let_def mag_train_y_def mag_train_n_def t_cp_of_Inr)
  from 1 2 3 4 5 show ?thesis by blast
qed

lemmas fix_defs = calc_observable_def calc_observable_cached_def make_propagators_def
  make_propagators_body_def observable_of_def observable_pure_def key_of_def lin1_def geom1_def
  empty_caches_def default_args_def args_b_def props1_def lru_hit_def lru_miss_def mag_ref_y_def mag_ref_n_def
  mag_train_y_def mag_train_n_def reduce_dot_def t_cp_of_def p_180s_def phase_1_def phase_2_def
  Let_def

text \<open>
  C2 as stated fails: a second evaluation that differs only in the chemical shift
  computes the propagators again (2 computations after 1); and after an evaluation
  answered by the outer cache, while the inner cache holds another key, an evaluation
  that differs only in the cycle count computes them again (3 after 2).
\<close>

theorem propagator_cache_counterexample:
  "n_make (snd (calc_observable_cached lin1 geom1 empty_caches default_args)) = 1
   \<and> n_make (snd (calc_observable_cached lin1 geom1
        (snd (calc_observable_cached lin1 geom1 empty_caches default_args))
        (default_args\<lparr>cs := 1\<rparr>))) = 2
   \<and> n_make (snd (calc_observable_cached lin1 geom1
        (snd (calc_observable_cached lin1 geom1
          (snd (calc_observable_cached lin1 geom1 empty_caches default_args)) args_b))
        default_args)) = 2
   \<and> n_make (snd (calc_observable_cached lin1 geom1
        (snd (calc_observable_cached lin1 geom1
          (snd (calc_observable_cached lin1 geom1
            (snd (calc_observable_cached lin1 geom1 empty_caches default_args)) args_b))
          default_args))
        (default_args\<lparr>ncyc := 1\<rparr>))) = 3"
  by (simp add: fix_defs upt_rec numeral_2_eq_2)

theorem propagator_cache_reuse_witness:
  "g_pw geom1 \<noteq> 0
   \<and> map fst (inner (snd (calc_observable_cached lin1 geom1 empty_caches default_args)))
       = [key_of geom1 default_args]
   \<and> n_make (snd (calc_observable_cached lin1 geom1
        (snd (calc_observable_cached lin1 geom1 empty_caches default_args))
        (default_args\<lparr>ncyc := 1\<rparr>)))
      = n_make (snd (calc_observable_cached lin1 geom1 empty_caches default_args))
   \<and> n_make (snd (calc_observable_cached lin1 geom1
        (snd (calc_observable_cached lin1 geom1 empty_caches default_args))
        (default_args\<lparr>cs := 1\<rparr>)))
      = n_make (snd (calc_observable_cached lin1 geom1 empty_caches default_args)) + 1"
proof -
  have ok: "caches_ok lin1 geom1 empty_caches"
    by (simp add: caches_ok_def empty_caches_def)
  have pw: "g_pw geom1 \<noteq> 0" by (simp add: geom1_def)
  have ms: "map_of (outer (empty_caches :: real caches)) default_args = None"
    by (simp add: empty_caches_def)
  have d: "key_of geom1 (default_args\<lparr>cs := 1\<rparr>) \<noteq> key_of geom1 default_args"
    by (simp add: key_of_def geom1_def default_args_def)
  have m2: "map_of (outer (snd (calc_observable_cached lin1 geom1 empty_caches default_args)))
              (default_args\<lparr>cs := 1\<rparr>) = None"
    by (simp add: fix_defs)
  from propagator_cache_reuse [OF ok pw ms, of 1 1] pw d m2 show ?thesis by simp
qed

text \<open>
  C3 as stated fails: without \<open>i0\<close> the result is 0 where the internal computation
  gives 1.
\<close>

theorem calc_observable_default_counterexample:
  "fst (calc_observable_cached lin1 geom1 empty_caches default_args) = Inr 1
   \<and> fst (calc_observable lin1 geom1 empty_caches None default_args) = Inr 0"
  by (simp add: fix_defs)

theorem calc_observable_times_i0_witness:
  "caches_ok lin1 geom1 empty_caches
   \<and> observable_pure lin1 geom1 default_args = Inr 1
   \<and> fst (calc_observable lin1 geom1 empty_caches (Some 3) default_args) = Inr 3"
proof -
  have ok: "caches_ok lin1 geom1 empty_caches"
    by (simp add: caches_ok_def empty_caches_def)
  have p: "observable_pure lin1 geom1 default_args = Inr 1"
    by (simp add: fix_defs)
  from calc_observable_times_i0 [of lin1 geom1 empty_caches 3 default_args]
  have "caches_ok lin1 geom1 empty_caches \<longrightarrow>
        fst (calc_observable lin1 geom1 empty_caches (Some 3) default_args)
          = map_sum id (\<lambda>v. 3 * v) (observable_pure lin1 geom1 default_args)"
    by (elim conjE)
  with ok p have "fst (calc_observable lin1 geom1 empty_caches (Some 3) default_args) = Inr 3"
    by simp
  with ok p show ?thesis by (intro conjI)
qed

theorem reference_point_branch_witness:
  "caches_ok lin1 geom1 empty_caches
   \<and> make_propagators_body lin1 geom1 (key_of geom1 args_b) = Inr (0, props1)
   \<and> ncyc args_b = 0
   \<and> fst (calc_observable_cached lin1 geom1 empty_caches args_b) = Inr (19 / 20)
   \<and> observable_pure lin1 (geom1\<lparr>g_time_t2 := 1\<rparr>) args_b = observable_pure lin1 geom1 args_b"
proof -
  have ok: "caches_ok lin1 geom1 empty_caches"
    by (simp add: caches_ok_def empty_caches_def)
  have b: "make_propagators_body lin1 geom1 (key_of geom1 args_b) = Inr (0, props1)"
    by (simp add: fix_defs)
  have n: "ncyc args_b = 0" by (simp add: args_b_def default_args_def)
  have v: "fst (get_nz lin1
               (if CHR ''y'' \<in> set (g_fh_flg geom1) then mag_ref_y lin1 props1 (compute_nz_eq lin1 (pb args_b))
                else mag_ref_n lin1 geom1 props1 (expm lin1 (smul lin1 0 (g_pw geom1)))
                       (compute_nz_eq lin1 (pb args_b)))) = 19 / 20"
    by (simp add: fix_defs)
  from reference_point_branch [OF ok b n, of 1] ok b n v show ?thesis by simp
qed

end
